theory Spec2Isabelle
  imports Main "HOL-Library.Char_ord" "HOL-Library.List_Lexorder"
begin

section \<open>The snapshot store (database.py)\<close>

text \<open>
  The four SQLite tables of \<open>init_db\<close>. A table is the list of its rows in rowid
  (insertion) order; the AUTOINCREMENT id and the timestamp columns, which no query of
  the program reads, are left out. Python integers and SQLite INTEGER columns are
  \<open>int\<close>, TEXT columns are \<open>string\<close>, compared bytewise as SQLite's BINARY
  collation does. Where a query gives no order, or rows tie in its ORDER BY, SQL leaves
  the order of the rows open; the model returns them in rowid order.
\<close>

record tracked_user =
  tu_guild_id :: int
  tu_username :: string
  tu_discord_user_id :: "int option"

record solved_challenge =
  sc_guild_id :: int
  sc_username :: string
  sc_challenge_name :: string
  sc_category :: string
  sc_points :: int
  sc_solved_date :: string
  sc_first_blood :: bool
  sc_announced :: bool

record first_blood =
  fb_guild_id :: int
  fb_challenge_name :: string
  fb_first_solver :: string

record database =
  tracked_users :: "tracked_user list"
  solved_challenges :: "solved_challenge list"
  guild_settings :: "int \<rightharpoonup> int"
  guild_first_bloods :: "first_blood list"

definition init_db :: database where
  "init_db = \<lparr>tracked_users = [], solved_challenges = [],
     guild_settings = Map.empty, guild_first_bloods = []\<rparr>"

text \<open>
  \<open>str.lower()\<close>, on the ASCII letters of a byte string: a letter from \<open>A\<close> to
  \<open>Z\<close> gets bit 5 set, which adds 32 to its code. The letters beyond ASCII, which
  Python lowers as well, are left as they are; the properties below use of \<open>lower\<close>
  only that lowering twice is lowering once.
\<close>

definition lower_char :: "char \<Rightarrow> char" where
  "lower_char c =
     (if CHR ''A'' \<le> c \<and> c \<le> CHR ''Z''
      then (case c of Char b0 b1 b2 b3 b4 b5 b6 b7 \<Rightarrow> Char b0 b1 b2 b3 b4 True b6 b7)
      else c)"

definition lower :: "string \<Rightarrow> string" where
  "lower s = map lower_char s"

text \<open>The columns of the UNIQUE constraints.\<close>

definition tracked_key :: "tracked_user \<Rightarrow> int \<times> string" where
  "tracked_key r = (tu_guild_id r, tu_username r)"

definition solve_key :: "solved_challenge \<Rightarrow> int \<times> string \<times> string" where
  "solve_key r = (sc_guild_id r, sc_username r, sc_challenge_name r)"

definition blood_key :: "first_blood \<Rightarrow> int \<times> string" where
  "blood_key r = (fb_guild_id r, fb_challenge_name r)"

text \<open>
  An INSERT that violates a UNIQUE constraint raises \<open>IntegrityError\<close>; each function
  catches it and returns \<open>False\<close>, the table unchanged.
\<close>

definition add_user :: "int \<Rightarrow> string \<Rightarrow> int option \<Rightarrow> database \<Rightarrow> bool \<times> database" where
  "add_user guild_id username discord_user_id d =
     (if (guild_id, lower username) \<in> tracked_key ` set (tracked_users d) then (False, d)
      else (True, d\<lparr>tracked_users := tracked_users d @
              [\<lparr>tu_guild_id = guild_id, tu_username = lower username,
                tu_discord_user_id = discord_user_id\<rparr>]\<rparr>))"

definition remove_user :: "int \<Rightarrow> string \<Rightarrow> database \<Rightarrow> bool \<times> database" where
  "remove_user guild_id username d =
     ((guild_id, lower username) \<in> tracked_key ` set (tracked_users d),
      d\<lparr>tracked_users :=
          filter (\<lambda>r. tracked_key r \<noteq> (guild_id, lower username)) (tracked_users d)\<rparr>)"

definition get_tracked_users :: "database \<Rightarrow> int \<Rightarrow> tracked_user list" where
  "get_tracked_users d guild_id = filter (\<lambda>r. tu_guild_id r = guild_id) (tracked_users d)"

definition get_solved_challenges :: "database \<Rightarrow> int \<Rightarrow> string \<Rightarrow> string set" where
  "get_solved_challenges d guild_id username =
     set (map sc_challenge_name
       (filter (\<lambda>r. sc_guild_id r = guild_id \<and> sc_username r = lower username)
          (solved_challenges d)))"

text \<open>The INSERT names no \<open>announced\<close> column: the row gets the default, FALSE.\<close>

definition add_solved_challenge ::
  "int \<Rightarrow> string \<Rightarrow> string \<Rightarrow> string \<Rightarrow> int \<Rightarrow> string \<Rightarrow> bool \<Rightarrow> database \<Rightarrow> bool \<times> database" where
  "add_solved_challenge guild_id username challenge_name category points solved_date first_blood d =
     (if (guild_id, lower username, challenge_name) \<in> solve_key ` set (solved_challenges d)
      then (False, d)
      else (True, d\<lparr>solved_challenges := solved_challenges d @
              [\<lparr>sc_guild_id = guild_id, sc_username = lower username,
                sc_challenge_name = challenge_name, sc_category = category,
                sc_points = points, sc_solved_date = solved_date,
                sc_first_blood = first_blood, sc_announced = False\<rparr>]\<rparr>))"

definition mark_challenge_announced :: "int \<Rightarrow> string \<Rightarrow> string \<Rightarrow> database \<Rightarrow> database" where
  "mark_challenge_announced guild_id username challenge_name d =
     d\<lparr>solved_challenges :=
         map (\<lambda>r. if solve_key r = (guild_id, lower username, challenge_name)
                  then r\<lparr>sc_announced := True\<rparr> else r)
           (solved_challenges d)\<rparr>"

text \<open>
  \<open>ORDER BY solved_date DESC\<close>: the matching rows, greatest date first; rows of equal
  date are kept in rowid order. The SELECT drops two columns, \<open>guild_id\<close> and
  \<open>announced\<close>, both fixed by the WHERE clause, so the rows are returned whole.
\<close>

definition get_unannounced_solves :: "database \<Rightarrow> int \<Rightarrow> solved_challenge list" where
  "get_unannounced_solves d guild_id =
     rev (sort_key sc_solved_date
       (rev (filter (\<lambda>r. sc_guild_id r = guild_id \<and> \<not> sc_announced r)
          (solved_challenges d))))"

definition check_and_set_first_blood :: "int \<Rightarrow> string \<Rightarrow> string \<Rightarrow> database \<Rightarrow> bool \<times> database" where
  "check_and_set_first_blood guild_id challenge_name username d =
     (if (guild_id, challenge_name) \<in> blood_key ` set (guild_first_bloods d) then (False, d)
      else (True, d\<lparr>guild_first_bloods := guild_first_bloods d @
              [\<lparr>fb_guild_id = guild_id, fb_challenge_name = challenge_name,
                fb_first_solver = lower username\<rparr>]\<rparr>))"

text \<open>
  The inner join of \<open>solved_challenges\<close> with \<open>tracked_users\<close> on guild and
  username, \<open>ORDER BY sc.solved_date ASC\<close>.
\<close>

record solver =
  sv_username :: string
  sv_solved_date :: string
  sv_first_blood :: bool
  sv_discord_user_id :: "int option"

definition get_challenge_solvers :: "database \<Rightarrow> int \<Rightarrow> string \<Rightarrow> solver list" where
  "get_challenge_solvers d guild_id challenge_name =
     sort_key sv_solved_date
       (concat (map
          (\<lambda>sc. map (\<lambda>tu. \<lparr>sv_username = sc_username sc, sv_solved_date = sc_solved_date sc,
                           sv_first_blood = sc_first_blood sc,
                           sv_discord_user_id = tu_discord_user_id tu\<rparr>)
                  (filter (\<lambda>tu. sc_guild_id sc = tu_guild_id tu \<and> sc_username sc = tu_username tu)
                     (tracked_users d)))
          (filter (\<lambda>sc. sc_guild_id sc = guild_id \<and> sc_challenge_name sc = challenge_name)
             (solved_challenges d))))"

definition set_announcement_channel :: "int \<Rightarrow> int \<Rightarrow> database \<Rightarrow> database" where
  "set_announcement_channel guild_id channel_id d =
     d\<lparr>guild_settings := (guild_settings d)(guild_id \<mapsto> channel_id)\<rparr>"

definition get_announcement_channel :: "database \<Rightarrow> int \<Rightarrow> int option" where
  "get_announcement_channel d guild_id = guild_settings d guild_id"

definition get_guild_ids :: "database \<Rightarrow> int list" where
  "get_guild_ids d = remdups (map tu_guild_id (tracked_users d))"

text \<open>
  Every write of the program goes through one of the six writing functions above, each a
  single committed statement. A history of the store is a sequence of such calls.
\<close>

datatype db_call =
    AddUser int string "int option"
  | RemoveUser int string
  | AddSolvedChallenge int string string string int string bool
  | MarkChallengeAnnounced int string string
  | CheckAndSetFirstBlood int string string
  | SetAnnouncementChannel int int

fun db_step :: "db_call \<Rightarrow> database \<Rightarrow> bool \<times> database" where
  "db_step (AddUser g u i) d = add_user g u i d"
| "db_step (RemoveUser g u) d = remove_user g u d"
| "db_step (AddSolvedChallenge g u c cat p dt fb) d = add_solved_challenge g u c cat p dt fb d"
| "db_step (MarkChallengeAnnounced g u c) d = (True, mark_challenge_announced g u c d)"
| "db_step (CheckAndSetFirstBlood g c u) d = check_and_set_first_blood g c u d"
| "db_step (SetAnnouncementChannel g ch) d = (True, set_announcement_channel g ch d)"

fun db_run :: "db_call list \<Rightarrow> database \<Rightarrow> database" where
  "db_run [] d = d"
| "db_run (c # cs) d = db_run cs (snd (db_step c d))"

fun db_results :: "db_call list \<Rightarrow> database \<Rightarrow> bool list" where
  "db_results [] d = []"
| "db_results (c # cs) d = fst (db_step c d) # db_results cs (snd (db_step c d))"

text \<open>The first-blood rows of a guild and challenge.\<close>

definition claims_of :: "int \<Rightarrow> string \<Rightarrow> database \<Rightarrow> first_blood list" where
  "claims_of g c d = filter (\<lambda>r. blood_key r = (g, c)) (guild_first_bloods d)"

text \<open>
  The claimant of a call that claims the first blood of a guild and challenge, and the
  row that the first such call of a history inserts.
\<close>

fun claimant :: "int \<Rightarrow> string \<Rightarrow> db_call \<Rightarrow> string option" where
  "claimant g c (CheckAndSetFirstBlood g' c' u) = (if g' = g \<and> c' = c then Some u else None)"
| "claimant g c _ = None"

definition first_claim :: "int \<Rightarrow> string \<Rightarrow> db_call list \<Rightarrow> first_blood list" where
  "first_claim g c cs =
     (case List.map_filter (claimant g c) cs of
        [] \<Rightarrow> []
      | u # us \<Rightarrow> [\<lparr>fb_guild_id = g, fb_challenge_name = c, fb_first_solver = lower u\<rparr>])"

text \<open>The stores that a history of calls leads to.\<close>

definition db_reach :: "database \<Rightarrow> database \<Rightarrow> bool" where
  "db_reach d d' \<longleftrightarrow> (\<exists>cs. d' = db_run cs d)"

text \<open>What the UNIQUE constraints and the lower-casing of every stored username maintain.\<close>

definition db_inv :: "database \<Rightarrow> bool" where
  "db_inv d \<longleftrightarrow>
     distinct (map tracked_key (tracked_users d)) \<and>
     distinct (map solve_key (solved_challenges d)) \<and>
     distinct (map blood_key (guild_first_bloods d)) \<and>
     list_all (\<lambda>r. lower (tu_username r) = tu_username r) (tracked_users d) \<and>
     list_all (\<lambda>r. lower (sc_username r) = sc_username r) (solved_challenges d)"

section \<open>The bot (bot.py)\<close>

subsection \<open>The upstream service and Discord\<close>

text \<open>
  The dataclasses \<open>SolvedChallenge\<close> and \<open>CryptoHackUser\<close> of cryptohack_api.py,
  and what a call of \<open>fetch_user\<close> does: it returns a user or raises
  \<open>UserNotFoundError\<close>, \<open>CryptoHackAPIError\<close> or another exception.
\<close>

record challenge =
  ch_name :: string
  ch_category :: string
  ch_points :: int
  ch_solves :: int
  ch_date :: string

record cryptohack_user =
  cu_username :: string
  cu_country :: string
  cu_score :: int
  cu_rank :: int
  cu_level :: int
  cu_first_bloods :: int
  cu_joined :: string
  cu_solved_challenges :: "challenge list"

datatype fetch_result = Fetched cryptohack_user | UserNotFoundError | CryptoHackAPIError | OtherError

text \<open>
  A Discord channel, and of a guild what \<open>_announce_new_solves\<close> reads: its id,
  \<open>get_channel\<close>, \<open>text_channels\<close> and \<open>system_channel\<close>.
\<close>

record channel =
  chan_id :: int
  chan_name :: string

record guild =
  g_id :: int
  g_get_channel :: "int \<Rightarrow> channel option"
  g_text_channels :: "channel list"
  g_system_channel :: "channel option"

text \<open>
  The keyword arguments of \<open>generate_solve_image\<close>; the image it returns is sent as a
  file. The other message the program sends to a channel is the error text of
  \<open>refresh\<close>, which names the challenge.
\<close>

record solve_image =
  im_username :: string
  im_score :: int
  im_challenge_name :: string
  im_category :: string
  im_points :: int
  im_server_rank :: nat
  im_total_solvers :: nat
  im_is_first_blood :: bool

datatype message = File solve_image | ErrorText string

datatype send_result = Sent | Forbidden | SendError

text \<open>
  The calls that leave the program, each a function of the time of the call, so that
  the same call may succeed once and fail later: \<open>fetch_user\<close>; \<open>fetch_channel\<close>
  (\<open>None\<close> when it raises); \<open>generate_solve_image\<close> (\<open>False\<close> when it raises);
  \<open>channel.send\<close>, which returns, raises \<open>discord.Forbidden\<close> or raises another
  exception.
\<close>

record env =
  fetch_user :: "nat \<Rightarrow> string \<Rightarrow> fetch_result"
  fetch_channel :: "nat \<Rightarrow> int \<Rightarrow> channel option"
  generate_solve_image :: "nat \<Rightarrow> solve_image \<Rightarrow> bool"
  channel_send :: "nat \<Rightarrow> channel \<Rightarrow> message \<Rightarrow> send_result"

text \<open>
  The state: the store, the calls of \<open>channel.send\<close> made so far (each with the guild
  it was made for and its outcome), and the time, which advances with the calls that
  leave the program. Replies to the interaction of a slash command (\<open>followup.send\<close>,
  \<open>response.send_message\<close>) are not part of it and are taken to return; so are the
  statements of the store, apart from the \<open>IntegrityError\<close> that the store functions
  catch.
\<close>

record send_call =
  sd_guild_id :: int
  sd_channel :: channel
  sd_message :: message
  sd_result :: send_result

record world =
  db :: database
  sends :: "send_call list"
  clock :: nat

definition tick :: "world \<Rightarrow> world" where
  "tick w = w\<lparr>clock := Suc (clock w)\<rparr>"

definition send :: "env \<Rightarrow> int \<Rightarrow> channel \<Rightarrow> message \<Rightarrow> world \<Rightarrow> send_result \<times> world" where
  "send e guild_id ch m w =
     (let r = channel_send e (clock w) ch m
      in (r, tick (w\<lparr>sends := sends w @
            [\<lparr>sd_guild_id = guild_id, sd_channel = ch, sd_message = m, sd_result = r\<rparr>]\<rparr>)))"

definition mark_announced :: "int \<Rightarrow> string \<Rightarrow> string \<Rightarrow> world \<Rightarrow> world" where
  "mark_announced guild_id username challenge_name w =
     w\<lparr>db := mark_challenge_announced guild_id username challenge_name (db w)\<rparr>"

subsection \<open>Recording new solves\<close>

text \<open>
  The first-blood check followed by the insert, as \<open>_check_user_solves\<close>, \<open>add_user\<close>
  and \<open>refresh\<close> each do for a challenge; the result of the insert is not looked at.
\<close>

definition record_solve :: "int \<Rightarrow> string \<Rightarrow> challenge \<Rightarrow> database \<Rightarrow> bool \<times> database" where
  "record_solve guild_id username c d =
     (let (is_first_blood, d1) = check_and_set_first_blood guild_id (ch_name c) username d
      in (is_first_blood,
          snd (add_solved_challenge guild_id username (ch_name c) (ch_category c) (ch_points c)
                 (ch_date c) is_first_blood d1)))"

definition check_user_solves :: "env \<Rightarrow> int \<Rightarrow> string \<Rightarrow> world \<Rightarrow> world" where
  "check_user_solves e guild_id username w =
     (case fetch_user e (clock w) username of
        Fetched user \<Rightarrow>
          (let existing_solves = get_solved_challenges (db w) guild_id username
           in tick (w\<lparr>db :=
                fold (\<lambda>c d. if ch_name c \<notin> existing_solves
                             then snd (record_solve guild_id username c d) else d)
                  (cu_solved_challenges user) (db w)\<rparr>))
      | _ \<Rightarrow> tick w)"

subsection \<open>Announcing\<close>

text \<open>
  The channel of \<open>_announce_new_solves\<close>: the configured one (when the id is set and not
  0) by \<open>fetch_channel\<close> or, when that raises, by \<open>guild.get_channel\<close>; else the first
  text channel named cryptohack; else the system channel.
\<close>

definition resolve_channel :: "env \<Rightarrow> guild \<Rightarrow> world \<Rightarrow> channel option" where
  "resolve_channel e g w =
     (let channel =
            (case get_announcement_channel (db w) (g_id g) of
               None \<Rightarrow> None
             | Some channel_id \<Rightarrow>
                 if channel_id = 0 then None
                 else (case fetch_channel e (clock w) channel_id of
                         Some c \<Rightarrow> Some c
                       | None \<Rightarrow> g_get_channel g channel_id));
          channel =
            (case channel of
               None \<Rightarrow> find (\<lambda>c. chan_name c = ''cryptohack'') (g_text_channels g)
             | Some c \<Rightarrow> Some c);
          channel = (case channel of None \<Rightarrow> g_system_channel g | Some c \<Rightarrow> Some c)
      in channel)"

text \<open>
  The body of the announcing loop. Every path ends in \<open>mark_challenge_announced\<close>:
  after the send returned, in the handler of \<open>discord.Forbidden\<close>, and in the handler
  of any other exception, which also catches a failing \<open>fetch_user\<close> and a failing
  \<open>generate_solve_image\<close>.
\<close>

definition announce_solve :: "env \<Rightarrow> guild \<Rightarrow> channel \<Rightarrow> solved_challenge \<Rightarrow> world \<Rightarrow> world" where
  "announce_solve e g ch solve w =
     (case fetch_user e (clock w) (sc_username solve) of
        Fetched user_data \<Rightarrow>
          (let w1 = tick w;
               server_solvers = get_challenge_solvers (db w1) (g_id g) (sc_challenge_name solve);
               server_rank = length server_solvers;
               image = \<lparr>im_username = sc_username solve, im_score = cu_score user_data,
                        im_challenge_name = sc_challenge_name solve,
                        im_category = sc_category solve, im_points = sc_points solve,
                        im_server_rank = server_rank, im_total_solvers = 0,
                        im_is_first_blood = sc_first_blood solve\<rparr>
           in if generate_solve_image e (clock w1) image
              then (case send e (g_id g) ch (File image) (tick w1) of
                      (Sent, w2) \<Rightarrow>
                        mark_announced (g_id g) (sc_username solve) (sc_challenge_name solve) w2
                    | (Forbidden, w2) \<Rightarrow>
                        mark_announced (g_id g) (sc_username solve) (sc_challenge_name solve) w2
                    | (SendError, w2) \<Rightarrow>
                        mark_announced (g_id g) (sc_username solve) (sc_challenge_name solve) w2)
              else mark_announced (g_id g) (sc_username solve) (sc_challenge_name solve) (tick w1))
      | _ \<Rightarrow> mark_announced (g_id g) (sc_username solve) (sc_challenge_name solve) (tick w))"

definition announce_new_solves :: "env \<Rightarrow> guild \<Rightarrow> world \<Rightarrow> world" where
  "announce_new_solves e g w =
     (let unannounced = get_unannounced_solves (db w) (g_id g)
      in if unannounced = [] then w
         else (case resolve_channel e g w of
                 None \<Rightarrow>
                   fold (\<lambda>solve. mark_announced (g_id g) (sc_username solve) (sc_challenge_name solve))
                     unannounced (tick w)
               | Some ch \<Rightarrow> fold (announce_solve e g ch) unannounced (tick w)))"

subsection \<open>Slash commands\<close>

text \<open>
  \<open>/adduser\<close>: when the fetch fails nothing is written; when the user is added, each
  challenge of the snapshot is recorded and marked announced at once.
\<close>

definition seed_solve :: "int \<Rightarrow> string \<Rightarrow> challenge \<Rightarrow> database \<Rightarrow> database" where
  "seed_solve guild_id username c d =
     mark_challenge_announced guild_id username (ch_name c)
       (snd (record_solve guild_id username c d))"

definition add_user_command :: "env \<Rightarrow> int \<Rightarrow> string \<Rightarrow> world \<Rightarrow> world" where
  "add_user_command e guild_id username w =
     (case fetch_user e (clock w) username of
        Fetched user \<Rightarrow>
          (let (added, d) = add_user guild_id (cu_username user) None (db w)
           in if added
              then tick (w\<lparr>db := fold (seed_solve guild_id (cu_username user))
                                   (cu_solved_challenges user) d\<rparr>)
              else tick (w\<lparr>db := d\<rparr>))
      | _ \<Rightarrow> tick w)"

definition remove_user_command :: "int \<Rightarrow> string \<Rightarrow> world \<Rightarrow> world" where
  "remove_user_command guild_id username w = w\<lparr>db := snd (remove_user guild_id username (db w))\<rparr>"

definition set_channel_command :: "int \<Rightarrow> channel \<Rightarrow> world \<Rightarrow> world" where
  "set_channel_command guild_id ch w =
     w\<lparr>db := set_announcement_channel guild_id (chan_id ch) (db w)\<rparr>"

text \<open>
  \<open>/refresh\<close>, first part: for each tracked user, the new solves are recorded and
  collected in \<open>new_solves_data\<close>; a user whose fetch raises is skipped.
\<close>

record new_solve =
  ns_username :: string
  ns_challenge_name :: string
  ns_category :: string
  ns_points :: int
  ns_first_blood :: bool
  ns_score :: int

definition refresh_challenge ::
  "int \<Rightarrow> string \<Rightarrow> int \<Rightarrow> string set \<Rightarrow> challenge \<Rightarrow> database \<times> new_solve list
     \<Rightarrow> database \<times> new_solve list" where
  "refresh_challenge guild_id username score existing c = (\<lambda>(d, new_solves_data).
     if ch_name c \<notin> existing
     then (let (is_first, d') = record_solve guild_id username c d
           in (d', new_solves_data @
                 [\<lparr>ns_username = username, ns_challenge_name = ch_name c,
                   ns_category = ch_category c, ns_points = ch_points c,
                   ns_first_blood = is_first, ns_score = score\<rparr>]))
     else (d, new_solves_data))"

definition refresh_user ::
  "env \<Rightarrow> int \<Rightarrow> tracked_user \<Rightarrow> world \<times> new_solve list \<Rightarrow> world \<times> new_solve list" where
  "refresh_user e guild_id user_data = (\<lambda>(w, new_solves_data).
     case fetch_user e (clock w) (tu_username user_data) of
       Fetched user \<Rightarrow>
         (let existing = get_solved_challenges (db w) guild_id (tu_username user_data);
              (d', new') =
                fold (refresh_challenge guild_id (tu_username user_data) (cu_score user) existing)
                  (cu_solved_challenges user) (db w, new_solves_data)
          in (tick (w\<lparr>db := d'\<rparr>), new'))
     | _ \<Rightarrow> (tick w, new_solves_data))"

text \<open>
  \<open>/refresh\<close>, second part. A solve is marked only after its send returned. When the
  image or the send raises, the handler sends the error text to the channel; when that
  send raises too, the exception leaves the command and the remaining solves are not
  looked at (the first component of the result is then \<open>False\<close>).
\<close>

definition refresh_send :: "env \<Rightarrow> int \<Rightarrow> channel \<Rightarrow> new_solve \<Rightarrow> world \<Rightarrow> bool \<times> world" where
  "refresh_send e guild_id ch solve w =
     (let server_solvers = get_challenge_solvers (db w) guild_id (ns_challenge_name solve);
          server_rank = length server_solvers;
          image = \<lparr>im_username = ns_username solve, im_score = ns_score solve,
                   im_challenge_name = ns_challenge_name solve,
                   im_category = ns_category solve, im_points = ns_points solve,
                   im_server_rank = server_rank, im_total_solvers = 0,
                   im_is_first_blood = ns_first_blood solve\<rparr>;
          on_error = (\<lambda>w'. case send e guild_id ch (ErrorText (ns_challenge_name solve)) w' of
                              (r, w'') \<Rightarrow> (r = Sent, w''))
      in if generate_solve_image e (clock w) image
         then (case send e guild_id ch (File image) (tick w) of
                 (Sent, w1) \<Rightarrow>
                   (True, mark_announced guild_id (ns_username solve) (ns_challenge_name solve) w1)
               | (_, w1) \<Rightarrow> on_error w1)
         else on_error (tick w))"

fun refresh_announce :: "env \<Rightarrow> int \<Rightarrow> channel \<Rightarrow> new_solve list \<Rightarrow> world \<Rightarrow> world" where
  "refresh_announce e guild_id ch [] w = w"
| "refresh_announce e guild_id ch (solve # rest) w =
     (case refresh_send e guild_id ch solve w of
        (True, w') \<Rightarrow> refresh_announce e guild_id ch rest w'
      | (False, w') \<Rightarrow> w')"

definition refresh :: "env \<Rightarrow> int \<Rightarrow> channel \<Rightarrow> world \<Rightarrow> world" where
  "refresh e guild_id ch w =
     (let tracked = get_tracked_users (db w) guild_id
      in if tracked = [] then w
         else (let (w1, new_solves_data) = fold (refresh_user e guild_id) tracked (w, [])
               in if new_solves_data = [] then w1
                  else refresh_announce e guild_id ch new_solves_data w1))"

subsection \<open>Operations\<close>

text \<open>
  What changes the state: the two steps of the poller (\<open>check_new_solves\<close> runs
  \<open>_check_user_solves\<close> for each tracked user of a guild, then \<open>_announce_new_solves\<close>
  for the guild) and the writing slash commands.
\<close>

datatype operation =
    CheckUserSolves env int string
  | AnnounceNewSolves env guild
  | AddUserCommand env int string
  | RemoveUserCommand int string
  | SetChannelCommand int channel
  | RefreshCommand env int channel

fun exec :: "operation \<Rightarrow> world \<Rightarrow> world" where
  "exec (CheckUserSolves e g u) w = check_user_solves e g u w"
| "exec (AnnounceNewSolves e g) w = announce_new_solves e g w"
| "exec (AddUserCommand e g u) w = add_user_command e g u w"
| "exec (RemoveUserCommand g u) w = remove_user_command g u w"
| "exec (SetChannelCommand g ch) w = set_channel_command g ch w"
| "exec (RefreshCommand e g ch) w = refresh e g ch w"

fun run :: "operation list \<Rightarrow> world \<Rightarrow> world" where
  "run [] w = w"
| "run (x # xs) w = run xs (exec x w)"

definition init_world :: world where
  "init_world = \<lparr>db = init_db, sends = [], clock = 0\<rparr>"

section \<open>Notions of the properties\<close>

text \<open>A state evolves into another when its store does.\<close>

definition evolves :: "world \<Rightarrow> world \<Rightarrow> bool" where
  "evolves w w' \<longleftrightarrow> db_reach (db w) (db w')"

text \<open>
  The rank of a solve in the words of the specification: the number of recorded solves
  of its guild and challenge whose date is not after its own. And what the code counts:
  the recorded solves of the guild and challenge whose account is tracked in the guild.
\<close>

definition spec_server_rank :: "database \<Rightarrow> solved_challenge \<Rightarrow> nat" where
  "spec_server_rank d solve =
     length (filter (\<lambda>r. sc_guild_id r = sc_guild_id solve \<and>
                         sc_challenge_name r = sc_challenge_name solve \<and>
                         sc_solved_date r \<le> sc_solved_date solve)
               (solved_challenges d))"

definition tracked_solves :: "database \<Rightarrow> int \<Rightarrow> string \<Rightarrow> solved_challenge list" where
  "tracked_solves d guild_id challenge_name =
     filter (\<lambda>r. sc_guild_id r = guild_id \<and> sc_challenge_name r = challenge_name \<and>
                 (sc_guild_id r, sc_username r) \<in> tracked_key ` set (tracked_users d))
       (solved_challenges d)"

text \<open>The username and the server rank of each image in a list of sends.\<close>

definition image_ranks :: "send_call list \<Rightarrow> (string \<times> nat) list" where
  "image_ranks log =
     concat (map (\<lambda>m. case sd_message m of
                         File im \<Rightarrow> [(im_username im, im_server_rank im)]
                       | ErrorText t \<Rightarrow> []) log)"

text \<open>The recorded solves of an account in a guild.\<close>

definition account_solves :: "database \<Rightarrow> int \<Rightarrow> string \<Rightarrow> solved_challenge list" where
  "account_solves d guild_id username =
     filter (\<lambda>r. sc_guild_id r = guild_id \<and> sc_username r = lower username)
       (solved_challenges d)"

text \<open>A key of \<open>solved_challenges\<close> that has a row, all of its rows being announced.\<close>

definition key_announced :: "database \<Rightarrow> int \<times> string \<times> string \<Rightarrow> bool" where
  "key_announced d k \<longleftrightarrow>
     k \<in> solve_key ` set (solved_challenges d) \<and>
     list_all sc_announced (filter (\<lambda>r. solve_key r = k) (solved_challenges d))"

text \<open>
  A key of \<open>solved_challenges\<close> with an announced row. A call of \<open>channel.send\<close>
  that carries the image of a solve, named by the key that \<open>mark_challenge_announced\<close>
  is given for it; the solves with such a call in a list of sends, and those with such a
  call that returned.
\<close>

definition announced_in :: "database \<Rightarrow> int \<times> string \<times> string \<Rightarrow> bool" where
  "announced_in d k \<longleftrightarrow> (\<exists>r\<in>set (solved_challenges d). solve_key r = k \<and> sc_announced r)"

definition notifies :: "send_call \<Rightarrow> int \<times> string \<times> string \<Rightarrow> bool" where
  "notifies m k \<longleftrightarrow>
     (case sd_message m of
        File im \<Rightarrow> (sd_guild_id m, lower (im_username im), im_challenge_name im) = k
      | ErrorText t \<Rightarrow> False)"

definition dispatched :: "send_call list \<Rightarrow> int \<times> string \<times> string \<Rightarrow> bool" where
  "dispatched log k \<longleftrightarrow> (\<exists>m\<in>set log. notifies m k)"

definition delivered :: "send_call list \<Rightarrow> int \<times> string \<times> string \<Rightarrow> bool" where
  "delivered log k \<longleftrightarrow> (\<exists>m\<in>set log. notifies m k \<and> sd_result m = Sent)"

definition new_sends :: "world \<Rightarrow> world \<Rightarrow> send_call list" where
  "new_sends w w' = drop (length (sends w)) (sends w')"

text \<open>
  The two ways in which the program sets \<open>announced\<close> on a solve without a call of
  \<open>channel.send\<close> for it. Seeding: \<open>/adduser\<close> adds the account and the solve is in
  its snapshot. Giving up: the solve is pending when \<open>_announce_new_solves\<close> runs, and
  no channel resolves, or the preparation of its image fails in that run: the call of
  \<open>fetch_user\<close> that the loop makes for the solve raises, or the call of
  \<open>generate_solve_image\<close> that it then makes raises. \<open>prepared\<close> says of the state in
  which the loop body starts on a solve that these two calls succeed.
\<close>

definition prepared :: "env \<Rightarrow> guild \<Rightarrow> solved_challenge \<Rightarrow> world \<Rightarrow> bool" where
  "prepared e g solve w =
     (case fetch_user e (clock w) (sc_username solve) of
        Fetched user_data \<Rightarrow>
          generate_solve_image e (Suc (clock w))
            \<lparr>im_username = sc_username solve, im_score = cu_score user_data,
             im_challenge_name = sc_challenge_name solve,
             im_category = sc_category solve, im_points = sc_points solve,
             im_server_rank =
               length (get_challenge_solvers (db w) (g_id g) (sc_challenge_name solve)),
             im_total_solvers = 0, im_is_first_blood = sc_first_blood solve\<rparr>
      | _ \<Rightarrow> False)"

fun gave_up_in_loop ::
  "env \<Rightarrow> guild \<Rightarrow> channel \<Rightarrow> solved_challenge list \<Rightarrow> world \<Rightarrow> int \<times> string \<times> string \<Rightarrow> bool" where
  "gave_up_in_loop e g ch [] w k = False"
| "gave_up_in_loop e g ch (s # rest) w k =
     (k = (g_id g, lower (sc_username s), sc_challenge_name s) \<and> \<not> prepared e g s w \<or>
      gave_up_in_loop e g ch rest (announce_solve e g ch s w) k)"

fun seeded :: "operation \<Rightarrow> world \<Rightarrow> int \<times> string \<times> string \<Rightarrow> bool" where
  "seeded (AddUserCommand e g u) w k =
     (case fetch_user e (clock w) u of
        Fetched user \<Rightarrow>
          (g, lower (cu_username user)) \<notin> tracked_key ` set (tracked_users (db w)) \<and>
          k \<in> (\<lambda>c. (g, lower (cu_username user), ch_name c)) ` set (cu_solved_challenges user)
      | _ \<Rightarrow> False)"
| "seeded _ w k = False"

fun gave_up :: "operation \<Rightarrow> world \<Rightarrow> int \<times> string \<times> string \<Rightarrow> bool" where
  "gave_up (AnnounceNewSolves e g) w k =
     (case resolve_channel e g w of
        None \<Rightarrow>
          k \<in> (\<lambda>s. (g_id g, lower (sc_username s), sc_challenge_name s)) `
                set (get_unannounced_solves (db w) (g_id g))
      | Some ch \<Rightarrow>
          gave_up_in_loop e g ch (get_unannounced_solves (db w) (g_id g)) (tick w) k)"
| "gave_up _ w k = False"

text \<open>
  Two relations between a state and a later one: the sends of the later state extend
  those of the earlier, and every solve announced in the later state was announced in
  the earlier or has, among the new sends, one of its image that returned
  (\<open>only_delivered\<close>), or one of its image or an excuse \<open>X\<close> (\<open>only_by\<close>).
\<close>

definition only_delivered :: "world \<Rightarrow> world \<Rightarrow> bool" where
  "only_delivered w w' \<longleftrightarrow>
     (\<exists>new. sends w' = sends w @ new \<and>
        (\<forall>k. announced_in (db w') k \<longrightarrow> announced_in (db w) k \<or> delivered new k))"

definition only_by :: "(int \<times> string \<times> string \<Rightarrow> bool) \<Rightarrow> world \<Rightarrow> world \<Rightarrow> bool" where
  "only_by X w w' \<longleftrightarrow>
     (\<exists>new. sends w' = sends w @ new \<and>
        (\<forall>k. announced_in (db w') k \<longrightarrow> announced_in (db w) k \<or> dispatched new k \<or> X k))"

section \<open>Examples\<close>

text \<open>
  A store of guild 1 with two recorded solves of one challenge, alice's of 1 January
  and bob's of 2 January, both accounts tracked and neither solve announced.
\<close>

definition two_pending :: database where
  "two_pending =
     db_run [AddUser 1 ''alice'' None, AddUser 1 ''bob'' None,
             CheckAndSetFirstBlood 1 ''RSA Starter 1'' ''alice'',
             AddSolvedChallenge 1 ''alice'' ''RSA Starter 1'' ''RSA'' 10 ''2024-01-01'' True,
             CheckAndSetFirstBlood 1 ''RSA Starter 1'' ''bob'',
             AddSolvedChallenge 1 ''bob'' ''RSA Starter 1'' ''RSA'' 10 ''2024-01-02'' False]
       init_db"

text \<open>A history with three claims of one first blood, by two accounts.\<close>

definition claim_history :: "db_call list" where
  "claim_history =
     [CheckAndSetFirstBlood 1 ''RSA Starter 1'' ''Alice'',
      AddSolvedChallenge 1 ''Alice'' ''RSA Starter 1'' ''RSA'' 10 ''2024-01-01'' True,
      CheckAndSetFirstBlood 1 ''RSA Starter 1'' ''bob'',
      CheckAndSetFirstBlood 2 ''RSA Starter 1'' ''bob'',
      CheckAndSetFirstBlood 1 ''RSA Starter 1'' ''alice'']"

text \<open>
  An upstream profile with two solved challenges; an environment in which every call
  succeeds and one in which every send is refused; a guild whose system channel is the only
  channel that resolves, and a guild with no channel that resolves.
\<close>

definition profile :: "string \<Rightarrow> cryptohack_user" where
  "profile u =
     \<lparr>cu_username = u, cu_country = ''fr'', cu_score = 35, cu_rank = 1234, cu_level = 2,
      cu_first_bloods = 0, cu_joined = ''01 Jan 2024'',
      cu_solved_challenges =
        [\<lparr>ch_name = ''RSA Starter 1'', ch_category = ''RSA'', ch_points = 10, ch_solves = 900,
          ch_date = ''2024-01-01''\<rparr>,
         \<lparr>ch_name = ''Keyed Permutations'', ch_category = ''AES'', ch_points = 25,
          ch_solves = 800, ch_date = ''2024-01-03''\<rparr>]\<rparr>"

definition good_env :: env where
  "good_env =
     \<lparr>fetch_user = (\<lambda>t u. Fetched (profile u)), fetch_channel = (\<lambda>t i. None),
      generate_solve_image = (\<lambda>t im. True), channel_send = (\<lambda>t ch m. Sent)\<rparr>"

definition bad_env :: env where
  "bad_env =
     \<lparr>fetch_user = (\<lambda>t u. Fetched (profile u)), fetch_channel = (\<lambda>t i. None),
      generate_solve_image = (\<lambda>t im. True), channel_send = (\<lambda>t ch m. Forbidden)\<rparr>"

definition general :: channel where
  "general = \<lparr>chan_id = 7, chan_name = ''general''\<rparr>"

definition guild_one :: guild where
  "guild_one =
     \<lparr>g_id = 1, g_get_channel = (\<lambda>i. None), g_text_channels = [general],
      g_system_channel = Some general\<rparr>"

definition guild_silent :: guild where
  "guild_silent =
     \<lparr>g_id = 1, g_get_channel = (\<lambda>i. None), g_text_channels = [general],
      g_system_channel = None\<rparr>"

definition pending_world :: world where
  "pending_world = \<lparr>db = two_pending, sends = [], clock = 0\<rparr>"

text \<open>
  A store with alice and bob tracked and nothing recorded, and an environment in which
  the images of bob are sent and those of alice are refused.
\<close>

definition tracked_world :: world where
  "tracked_world =
     \<lparr>db = db_run [AddUser 1 ''alice'' None, AddUser 1 ''bob'' None] init_db,
      sends = [], clock = 0\<rparr>"

definition picky_env :: env where
  "picky_env =
     \<lparr>fetch_user = (\<lambda>t u. Fetched (profile u)), fetch_channel = (\<lambda>t i. None),
      generate_solve_image = (\<lambda>t im. True),
      channel_send = (\<lambda>t ch m. case m of
                        File im \<Rightarrow> if im_username im = ''bob'' then Sent else Forbidden
                      | ErrorText n \<Rightarrow> Sent)\<rparr>"

text \<open>
  An environment in which the snapshot of an account is empty at time 0 and has two
  solves later, every call succeeding.
\<close>

definition growing_env :: env where
  "growing_env =
     \<lparr>fetch_user = (\<lambda>t u. Fetched (if t = 0 then (profile u)\<lparr>cu_solved_challenges := []\<rparr>
                                     else profile u)),
      fetch_channel = (\<lambda>t i. None), generate_solve_image = (\<lambda>t im. True),
      channel_send = (\<lambda>t ch m. Sent)\<rparr>"

text \<open>An environment in which every image generation fails.\<close>

definition unrendered_env :: env where
  "unrendered_env =
     \<lparr>fetch_user = (\<lambda>t u. Fetched (profile u)), fetch_channel = (\<lambda>t i. None),
      generate_solve_image = (\<lambda>t im. False), channel_send = (\<lambda>t ch m. Sent)\<rparr>"

text \<open>
  An environment in which the one achievement of an account is renamed between time 1
  and time 2, and the state reached by tracking an account in it, recording the solve
  under its old name and untracking the account; an environment whose snapshots list
  one achievement twice.
\<close>

definition renaming_env :: env where
  "renaming_env =
     \<lparr>fetch_user = (\<lambda>t u. Fetched ((profile u)\<lparr>cu_solved_challenges :=
          (if t = 0 then []
           else [\<lparr>ch_name = (if t = 1 then ''Old Name'' else ''New Name''),
                  ch_category = ''Misc'', ch_points = 10, ch_solves = 5,
                  ch_date = ''2024-01-01''\<rparr>])\<rparr>)),
      fetch_channel = (\<lambda>t i. None), generate_solve_image = (\<lambda>t im. True),
      channel_send = (\<lambda>t ch m. Sent)\<rparr>"

definition untracked_world :: world where
  "untracked_world =
     run [AddUserCommand renaming_env 1 ''Alice'', CheckUserSolves renaming_env 1 ''alice'',
          RemoveUserCommand 1 ''alice''] init_world"

definition twice_env :: env where
  "twice_env =
     \<lparr>fetch_user = (\<lambda>t u. Fetched ((profile u)\<lparr>cu_solved_challenges :=
          [hd (cu_solved_challenges (profile u)), hd (cu_solved_challenges (profile u))]\<rparr>)),
      fetch_channel = (\<lambda>t i. None), generate_solve_image = (\<lambda>t im. True),
      channel_send = (\<lambda>t ch m. Sent)\<rparr>"

section \<open>Properties\<close>

lemma lower_char_idem: "lower_char (lower_char c) = lower_char c"
  by (cases c) (auto simp: lower_char_def less_eq_char_def)

lemma lower_idem [simp]: "lower (lower s) = lower s"
  by (simp add: lower_def lower_char_idem)

lemmas store_defs =
  add_user_def remove_user_def add_solved_challenge_def mark_challenge_announced_def
  check_and_set_first_blood_def set_announcement_channel_def init_db_def
  tracked_key_def solve_key_def blood_key_def lower_def lower_char_def

lemma two_pending_eq:
  "two_pending =
     \<lparr>tracked_users =
        [\<lparr>tu_guild_id = 1, tu_username = ''alice'', tu_discord_user_id = None\<rparr>,
         \<lparr>tu_guild_id = 1, tu_username = ''bob'', tu_discord_user_id = None\<rparr>],
      solved_challenges =
        [\<lparr>sc_guild_id = 1, sc_username = ''alice'', sc_challenge_name = ''RSA Starter 1'',
          sc_category = ''RSA'', sc_points = 10, sc_solved_date = ''2024-01-01'',
          sc_first_blood = True, sc_announced = False\<rparr>,
         \<lparr>sc_guild_id = 1, sc_username = ''bob'', sc_challenge_name = ''RSA Starter 1'',
          sc_category = ''RSA'', sc_points = 10, sc_solved_date = ''2024-01-02'',
          sc_first_blood = False, sc_announced = False\<rparr>],
      guild_settings = Map.empty,
      guild_first_bloods =
        [\<lparr>fb_guild_id = 1, fb_challenge_name = ''RSA Starter 1'', fb_first_solver = ''alice''\<rparr>]\<rparr>"
  by (simp add: two_pending_def store_defs)

subsection \<open>Auxiliary facts\<close>

lemma db_run_append: "db_run (cs @ cs') d = db_run cs' (db_run cs d)"
  by (induction cs arbitrary: d) simp_all

lemma db_inv_init: "db_inv init_db"
  by (simp add: db_inv_def init_db_def)

lemma solve_key_announced [simp]: "solve_key (r\<lparr>sc_announced := b\<rparr>) = solve_key r"
  by (simp add: solve_key_def)

lemma mark_keys [simp]:
  "map solve_key (solved_challenges (mark_challenge_announced g u c d)) =
   map solve_key (solved_challenges d)"
  by (simp add: mark_challenge_announced_def comp_def if_distrib [of solve_key])

lemma mark_usernames [simp]:
  "map sc_username (solved_challenges (mark_challenge_announced g u c d)) =
   map sc_username (solved_challenges d)"
  by (simp add: mark_challenge_announced_def comp_def if_distrib [of sc_username])

lemma mark_others [simp]:
  "tracked_users (mark_challenge_announced g u c d) = tracked_users d"
  "guild_first_bloods (mark_challenge_announced g u c d) = guild_first_bloods d"
  "guild_settings (mark_challenge_announced g u c d) = guild_settings d"
  by (simp_all add: mark_challenge_announced_def)

lemma all_lower_iff:
  "list_all (\<lambda>r. lower (f r) = f r) xs \<longleftrightarrow> list_all (\<lambda>n. lower n = n) (map f xs)"
  by (simp add: list_all_iff)

lemma add_user_inv: "db_inv d \<Longrightarrow> db_inv (snd (add_user g u i d))"
  by (auto simp: db_inv_def add_user_def tracked_key_def)

lemma remove_user_inv: "db_inv d \<Longrightarrow> db_inv (snd (remove_user g u d))"
  by (auto simp: db_inv_def remove_user_def distinct_map_filter list_all_iff)

lemma add_solved_challenge_inv:
  "db_inv d \<Longrightarrow> db_inv (snd (add_solved_challenge g u c cat p dt fb d))"
  by (auto simp: db_inv_def add_solved_challenge_def solve_key_def)

lemma mark_challenge_announced_inv: "db_inv d \<Longrightarrow> db_inv (mark_challenge_announced g u c d)"
  unfolding db_inv_def all_lower_iff [of sc_username] by simp

lemma check_and_set_first_blood_inv:
  "db_inv d \<Longrightarrow> db_inv (snd (check_and_set_first_blood g c u d))"
  by (auto simp: db_inv_def check_and_set_first_blood_def blood_key_def)

lemma set_announcement_channel_inv: "db_inv d \<Longrightarrow> db_inv (set_announcement_channel g ch d)"
  by (simp add: db_inv_def set_announcement_channel_def)

lemma db_step_inv: "db_inv d \<Longrightarrow> db_inv (snd (db_step c d))"
  by (cases c)
    (simp_all add: add_user_inv remove_user_inv add_solved_challenge_inv
      mark_challenge_announced_inv check_and_set_first_blood_inv set_announcement_channel_inv)

lemma db_run_inv: "db_inv d \<Longrightarrow> db_inv (db_run cs d)"
  by (induction cs arbitrary: d) (simp_all add: db_step_inv)

lemma blood_keys_step:
  "(g, c) \<in> blood_key ` set (guild_first_bloods (snd (db_step x d))) \<longleftrightarrow>
   (g, c) \<in> blood_key ` set (guild_first_bloods d) \<or> (\<exists>u. x = CheckAndSetFirstBlood g c u)"
  by (cases x)
    (auto simp: add_user_def remove_user_def add_solved_challenge_def
      mark_challenge_announced_def check_and_set_first_blood_def set_announcement_channel_def
      blood_key_def)

lemma first_blood_result:
  "fst (db_step (CheckAndSetFirstBlood g c u) d) \<longleftrightarrow>
     (g, c) \<notin> blood_key ` set (guild_first_bloods d)"
  by (simp add: check_and_set_first_blood_def)

lemma first_blood_results:
  "i < length cs \<Longrightarrow> cs ! i = CheckAndSetFirstBlood g c u \<Longrightarrow>
   db_results cs d ! i \<longleftrightarrow>
     (g, c) \<notin> blood_key ` set (guild_first_bloods d) \<and>
     (\<forall>j<i. \<forall>u'. cs ! j \<noteq> CheckAndSetFirstBlood g c u')"
proof (induction cs arbitrary: d i)
  case Nil
  then show ?case by simp
next
  case (Cons x cs)
  show ?case
  proof (cases i)
    case 0
    with Cons.prems show ?thesis by (simp add: check_and_set_first_blood_def)
  next
    case (Suc k)
    with Cons.prems have k: "k < length cs" "cs ! k = CheckAndSetFirstBlood g c u" by simp_all
    have "db_results (x # cs) d ! i = db_results cs (snd (db_step x d)) ! k"
      using Suc by simp
    also have "\<dots> \<longleftrightarrow> (g, c) \<notin> blood_key ` set (guild_first_bloods (snd (db_step x d))) \<and>
       (\<forall>j<k. \<forall>u'. cs ! j \<noteq> CheckAndSetFirstBlood g c u')"
      using Cons.IH [OF k] .
    also have "\<dots> \<longleftrightarrow> (g, c) \<notin> blood_key ` set (guild_first_bloods d) \<and>
       (\<forall>j<i. \<forall>u'. (x # cs) ! j \<noteq> CheckAndSetFirstBlood g c u')"
      unfolding blood_keys_step Suc by (auto simp: less_Suc_eq_0_disj)
    finally show ?thesis .
  qed
qed

lemma claims_of_step:
  "claims_of g c (snd (db_step x d)) =
     claims_of g c d @
     (case x of CheckAndSetFirstBlood g' c' u \<Rightarrow>
        if g' = g \<and> c' = c \<and> (g, c) \<notin> blood_key ` set (guild_first_bloods d)
        then [\<lparr>fb_guild_id = g, fb_challenge_name = c, fb_first_solver = lower u\<rparr>] else []
      | _ \<Rightarrow> [])"
  by (cases x)
    (auto simp: claims_of_def add_user_def remove_user_def add_solved_challenge_def
      mark_challenge_announced_def check_and_set_first_blood_def set_announcement_channel_def
      blood_key_def)

lemma claims_of_empty_iff: "claims_of g c d = [] \<longleftrightarrow> (g, c) \<notin> blood_key ` set (guild_first_bloods d)"
  by (force simp: claims_of_def filter_empty_conv)

lemma claims_of_run:
  "length (claims_of g c d) \<le> 1 \<Longrightarrow> length (claims_of g c (db_run cs d)) \<le> 1"
proof (induction cs arbitrary: d)
  case Nil
  then show ?case by simp
next
  case (Cons x cs)
  have "length (claims_of g c (snd (db_step x d))) \<le> 1"
    using Cons.prems claims_of_empty_iff [of g c d]
    by (auto simp: claims_of_step split: db_call.splits)
  then show ?case using Cons.IH by simp
qed

lemma announced_update_same: "sc_announced r \<Longrightarrow> r\<lparr>sc_announced := True\<rparr> = r"
  by simp

lemma mark_keeps:
  assumes "r \<in> set (solved_challenges d)" and "sc_announced r"
  shows "r \<in> set (solved_challenges (mark_challenge_announced g u c d))"
proof -
  have "(if solve_key r = (g, lower u, c) then r\<lparr>sc_announced := True\<rparr> else r) = r"
    using assms(2) by simp
  then show ?thesis
    using assms(1) unfolding mark_challenge_announced_def by force
qed

lemma keeps_step:
  "r \<in> set (solved_challenges d) \<Longrightarrow> sc_announced r \<Longrightarrow>
   r \<in> set (solved_challenges (snd (db_step x d)))"
  by (cases x)
    (auto simp: add_user_def remove_user_def add_solved_challenge_def mark_keeps
      check_and_set_first_blood_def set_announcement_channel_def)

lemma db_reach_refl [simp]: "db_reach d d"
  unfolding db_reach_def by (rule exI [of _ "[]"]) simp

lemma db_reach_trans: "db_reach d d' \<Longrightarrow> db_reach d' d'' \<Longrightarrow> db_reach d d''"
  unfolding db_reach_def by (metis db_run_append)

lemma db_reach_step: "db_reach d (snd (db_step x d))"
  unfolding db_reach_def by (rule exI [of _ "[x]"]) simp

lemma db_reach_calls:
  "db_reach d (snd (add_user g u i d))"
  "db_reach d (snd (remove_user g u d))"
  "db_reach d (snd (add_solved_challenge g u c cat p dt fb d))"
  "db_reach d (mark_challenge_announced g u c d)"
  "db_reach d (snd (check_and_set_first_blood g c u d))"
  "db_reach d (set_announcement_channel g ch d)"
  using db_reach_step [of d "AddUser g u i"] db_reach_step [of d "RemoveUser g u"]
    db_reach_step [of d "AddSolvedChallenge g u c cat p dt fb"]
    db_reach_step [of d "MarkChallengeAnnounced g u c"]
    db_reach_step [of d "CheckAndSetFirstBlood g c u"]
    db_reach_step [of d "SetAnnouncementChannel g ch"]
  by simp_all

lemma db_reach_fold:
  assumes "\<And>x d. db_reach d (f x d)"
  shows "db_reach d (fold f xs d)"
proof (induction xs arbitrary: d)
  case Nil
  show ?case by simp
next
  case (Cons x xs)
  have "db_reach d (f x d)" by (rule assms)
  moreover have "db_reach (f x d) (fold f xs (f x d))" by (rule Cons.IH)
  ultimately show ?case by (simp add: db_reach_trans [of d "f x d"])
qed

lemma record_solve_eq:
  "record_solve g u c d =
     (fst (check_and_set_first_blood g (ch_name c) u d),
      snd (add_solved_challenge g u (ch_name c) (ch_category c) (ch_points c) (ch_date c)
             (fst (check_and_set_first_blood g (ch_name c) u d))
             (snd (check_and_set_first_blood g (ch_name c) u d))))"
  by (simp add: record_solve_def split_beta)

lemma db_reach_record_solve: "db_reach d (snd (record_solve g u c d))"
  unfolding record_solve_eq snd_conv
  by (rule db_reach_trans [OF db_reach_calls(5) db_reach_calls(3)])

lemma db_reach_seed_solve: "db_reach d (seed_solve g u c d)"
  unfolding seed_solve_def
  by (rule db_reach_trans [OF db_reach_record_solve db_reach_calls(4)])

lemma evolves_refl [simp]: "evolves w w"
  by (simp add: evolves_def)

lemma evolves_trans: "evolves w w' \<Longrightarrow> evolves w' w'' \<Longrightarrow> evolves w w''"
  unfolding evolves_def by (rule db_reach_trans)

lemma evolves_tick [simp]: "evolves w (tick w') \<longleftrightarrow> evolves w w'"
  by (simp add: evolves_def tick_def)

lemma db_tick [simp]: "db (tick w) = db w" and sends_tick [simp]: "sends (tick w) = sends w"
  and clock_tick [simp]: "clock (tick w) = Suc (clock w)"
  by (simp_all add: tick_def)

lemma db_send [simp]: "db (snd (send e g ch m w)) = db w"
  by (simp add: send_def Let_def)

lemma db_mark_announced [simp]:
  "db (mark_announced g u c w) = mark_challenge_announced g u c (db w)"
  and sends_mark_announced [simp]: "sends (mark_announced g u c w) = sends w"
  and clock_mark_announced [simp]: "clock (mark_announced g u c w) = clock w"
  by (simp_all add: mark_announced_def)

lemma evolves_fold:
  assumes "\<And>x w. evolves w (f x w)"
  shows "evolves w (fold f xs w)"
proof (induction xs arbitrary: w)
  case Nil
  show ?case by simp
next
  case (Cons x xs)
  have "evolves w (f x w)" by (rule assms)
  moreover have "evolves (f x w) (fold f xs (f x w))" by (rule Cons.IH)
  ultimately show ?case by (simp add: evolves_trans [of w "f x w"])
qed

lemma evolves_mark_announced: "evolves w (mark_announced g u c w)"
  by (simp add: evolves_def db_reach_calls)

text \<open>The deliverer's loop body writes exactly one thing to the store.\<close>

lemma case_send_result_same [simp]:
  "(case r of Sent \<Rightarrow> x | Forbidden \<Rightarrow> x | SendError \<Rightarrow> x) = x"
  by (cases r) simp_all

lemma db_announce_solve:
  "db (announce_solve e g ch solve w) =
     mark_challenge_announced (g_id g) (sc_username solve) (sc_challenge_name solve) (db w)"
  by (simp add: announce_solve_def Let_def split_beta split: fetch_result.splits)

lemma evolves_announce_solve: "evolves w (announce_solve e g ch solve w)"
  by (simp add: evolves_def db_announce_solve db_reach_calls)

lemma evolves_announce_new_solves: "evolves w (announce_new_solves e g w)"
proof -
  have a: "evolves w (fold (\<lambda>solve. mark_announced (g_id g) (sc_username solve)
      (sc_challenge_name solve)) xs (tick w))" for xs
    by (rule evolves_trans [of w "tick w"], simp)
      (rule evolves_fold, rule evolves_mark_announced)
  have b: "evolves w (fold (announce_solve e g ch) xs (tick w))" for xs ch
    by (rule evolves_trans [of w "tick w"], simp)
      (rule evolves_fold, rule evolves_announce_solve)
  show ?thesis
    by (simp add: announce_new_solves_def Let_def a b split: option.splits)
qed

lemma evolves_check_user_solves: "evolves w (check_user_solves e g u w)"
proof -
  have "db_reach d (fold (\<lambda>c d. if ch_name c \<notin> ex then snd (record_solve g u c d) else d) cs d)"
    for d ex cs
    by (rule db_reach_fold) (simp add: db_reach_record_solve)
  then show ?thesis
    by (simp add: check_user_solves_def evolves_def Let_def split: fetch_result.splits)
qed

lemma evolves_add_user_command: "evolves w (add_user_command e g u w)"
proof -
  have "db_reach d (fold (seed_solve g n) cs (snd (add_user g n None d)))" for d n cs
    by (rule db_reach_trans [OF db_reach_calls(1)]) (rule db_reach_fold, rule db_reach_seed_solve)
  moreover have "db_reach d (snd (add_user g n None d))" for d n
    by (rule db_reach_calls)
  ultimately show ?thesis
    by (simp add: add_user_command_def evolves_def split_beta split: fetch_result.splits)
qed

lemma first_claim_Nil [simp]: "first_claim g c [] = []"
  by (simp add: first_claim_def map_filter_simps)

lemma first_claim_Cons:
  "first_claim g c (x # cs) =
     (case claimant g c x of
        Some u \<Rightarrow> [\<lparr>fb_guild_id = g, fb_challenge_name = c, fb_first_solver = lower u\<rparr>]
      | None \<Rightarrow> first_claim g c cs)"
  by (simp add: first_claim_def map_filter_simps split: option.splits)

lemma claims_of_step':
  "claims_of g c (snd (db_step x d)) =
     claims_of g c d @ (if claims_of g c d = [] then first_claim g c [x] else [])"
  unfolding claims_of_step
  by (cases x) (auto simp: claims_of_empty_iff first_claim_Cons)

lemma claims_of_run_eq:
  "claims_of g c (db_run cs d) =
     claims_of g c d @ (if claims_of g c d = [] then first_claim g c cs else [])"
proof (induction cs arbitrary: d)
  case Nil
  show ?case by simp
next
  case (Cons x cs)
  show ?case
    by (cases "claimant g c x")
      (simp_all add: Cons.IH claims_of_step' first_claim_Cons)
qed

lemma claims_of_init [simp]: "claims_of g c init_db = []"
  by (simp add: claims_of_def init_db_def)


lemma db_reach_refresh_challenge:
  "db_reach d (fst (refresh_challenge g u s ex c (d, new)))"
  by (simp add: refresh_challenge_def split_beta db_reach_record_solve)

lemma db_reach_refresh_challenges:
  "db_reach (fst p) (fst (fold (refresh_challenge g u s ex) cs p))"
proof (induction cs arbitrary: p)
  case Nil
  show ?case by simp
next
  case (Cons c cs)
  have "db_reach (fst p) (fst (refresh_challenge g u s ex c p))"
    using db_reach_refresh_challenge [of "fst p" g u s ex c "snd p"] by simp
  moreover have "db_reach (fst (refresh_challenge g u s ex c p))
      (fst (fold (refresh_challenge g u s ex) cs (refresh_challenge g u s ex c p)))"
    by (rule Cons.IH)
  ultimately show ?case
    by (simp add: db_reach_trans [of "fst p" "fst (refresh_challenge g u s ex c p)"])
qed

lemma evolves_refresh_user: "evolves (fst p) (fst (refresh_user e g t p))"
  using db_reach_refresh_challenges [of "(db (fst p), snd p)"]
  by (simp add: refresh_user_def split_beta evolves_def Let_def split: fetch_result.splits)

lemma evolves_refresh_users: "evolves (fst p) (fst (fold (refresh_user e g) ts p))"
proof (induction ts arbitrary: p)
  case Nil
  show ?case by simp
next
  case (Cons t ts)
  have "evolves (fst p) (fst (refresh_user e g t p))"
    by (rule evolves_refresh_user)
  moreover have "evolves (fst (refresh_user e g t p))
      (fst (fold (refresh_user e g) ts (refresh_user e g t p)))"
    by (rule Cons.IH)
  ultimately show ?case
    by (simp add: evolves_trans [of "fst p" "fst (refresh_user e g t p)"])
qed

lemma evolves_send: "evolves w (snd (send e g ch m w))"
  by (simp add: evolves_def)

lemma evolves_refresh_send: "evolves w (snd (refresh_send e g ch solve w))"
  by (simp add: refresh_send_def Let_def split_beta evolves_def db_reach_calls
      split: send_result.splits)

lemma evolves_refresh_announce: "evolves w (refresh_announce e g ch xs w)"
proof (induction xs arbitrary: w)
  case Nil
  show ?case by simp
next
  case (Cons x xs)
  have a: "evolves w (snd (refresh_send e g ch x w))"
    by (rule evolves_refresh_send)
  have b: "evolves (snd (refresh_send e g ch x w))
      (refresh_announce e g ch xs (snd (refresh_send e g ch x w)))"
    by (rule Cons.IH)
  show ?case
    using a evolves_trans [OF a b] by (simp add: split_beta split: bool.splits)
qed

lemma evolves_refresh: "evolves w (refresh e g ch w)"
proof -
  let ?p = "fold (refresh_user e g) (get_tracked_users (db w) g) (w, [])"
  have a: "evolves w (fst ?p)"
    using evolves_refresh_users [of "(w, [])"] by simp
  have b: "evolves w (refresh_announce e g ch (snd ?p) (fst ?p))"
    by (rule evolves_trans [OF a evolves_refresh_announce])
  show ?thesis
    using a b by (simp add: refresh_def Let_def split_beta)
qed

lemma evolves_exec: "evolves w (exec x w)"
  by (cases x)
    (simp_all add: evolves_check_user_solves evolves_announce_new_solves
      evolves_add_user_command evolves_refresh,
     simp_all add: evolves_def remove_user_command_def set_channel_command_def db_reach_calls)

lemma evolves_run: "evolves w (run xs w)"
proof (induction xs arbitrary: w)
  case Nil
  show ?case by simp
next
  case (Cons x xs)
  show ?case
    using evolves_trans [OF evolves_exec [of w x] Cons.IH [of "exec x w"]] by simp
qed

lemma keeps_run:
  "r \<in> set (solved_challenges d) \<Longrightarrow> sc_announced r \<Longrightarrow>
   r \<in> set (solved_challenges (db_run cs d))"
  by (induction cs arbitrary: d) (simp_all add: keeps_step)

lemma db_inv_reach: "db_reach d d' \<Longrightarrow> db_inv d \<Longrightarrow> db_inv d'"
  by (auto simp: db_reach_def db_run_inv)

text \<open>Every state that the operations reach from the empty one has a store as \<open>db_inv\<close> says.\<close>

lemma db_inv_run: "db_inv (db (run ops init_world))"
proof -
  have "db_reach (db init_world) (db (run ops init_world))"
    using evolves_run [of init_world ops] by (simp add: evolves_def)
  moreover have "db_inv (db init_world)"
    by (simp add: init_world_def db_inv_init)
  ultimately show ?thesis
    by (rule db_inv_reach)
qed


lemma fold_mark_sends [simp]:
  "sends (fold (\<lambda>s. mark_announced g (f s) (h s)) xs w) = sends w"
  by (induction xs arbitrary: w) simp_all

lemma fold_mark_db_others [simp]:
  "tracked_users (db (fold (\<lambda>s. mark_announced g (f s) (h s)) xs w)) = tracked_users (db w)"
  "guild_first_bloods (db (fold (\<lambda>s. mark_announced g (f s) (h s)) xs w)) = guild_first_bloods (db w)"
  "guild_settings (db (fold (\<lambda>s. mark_announced g (f s) (h s)) xs w)) = guild_settings (db w)"
  by (induction xs arbitrary: w) simp_all

lemma fold_mark_solved:
  "solved_challenges (db (fold (\<lambda>s. mark_announced g (f s) (h s)) xs w)) =
     map (\<lambda>r. if solve_key r \<in> (\<lambda>s. (g, lower (f s), h s)) ` set xs
              then r\<lparr>sc_announced := True\<rparr> else r)
       (solved_challenges (db w))"
proof (induction xs arbitrary: w)
  case Nil
  show ?case by simp
next
  case (Cons x xs)
  show ?case
    by (simp add: Cons.IH, simp add: mark_challenge_announced_def)
qed


lemma set_get_unannounced_solves:
  "set (get_unannounced_solves d g) =
     {r \<in> set (solved_challenges d). sc_guild_id r = g \<and> \<not> sc_announced r}"
  by (auto simp: get_unannounced_solves_def)

lemma mark_all_pending:
  assumes "list_all (\<lambda>r. lower (sc_username r) = sc_username r) (solved_challenges d)"
  shows "map (\<lambda>r. if solve_key r \<in> (\<lambda>s. (g, lower (sc_username s), sc_challenge_name s)) `
                       set (get_unannounced_solves d g)
                  then r\<lparr>sc_announced := True\<rparr> else r) (solved_challenges d) =
         map (\<lambda>r. if sc_guild_id r = g then r\<lparr>sc_announced := True\<rparr> else r)
           (solved_challenges d)"
proof (rule map_cong [OF refl])
  fix r
  assume r: "r \<in> set (solved_challenges d)"
  let ?K = "(\<lambda>s. (g, lower (sc_username s), sc_challenge_name s)) ` set (get_unannounced_solves d g)"
  show "(if solve_key r \<in> ?K then r\<lparr>sc_announced := True\<rparr> else r) =
        (if sc_guild_id r = g then r\<lparr>sc_announced := True\<rparr> else r)"
  proof (cases "sc_guild_id r = g")
    case False
    then have "solve_key r \<notin> ?K"
      by (auto simp: solve_key_def)
    with False show ?thesis by simp
  next
    case True
    show ?thesis
    proof (cases "sc_announced r")
      case True
      then show ?thesis by simp
    next
      case False
      have "lower (sc_username r) = sc_username r"
        using assms r by (simp add: list_all_iff)
      then have "solve_key r = (g, lower (sc_username r), sc_challenge_name r)"
        using \<open>sc_guild_id r = g\<close> by (simp add: solve_key_def)
      moreover have "r \<in> set (get_unannounced_solves d g)"
        using r False \<open>sc_guild_id r = g\<close> by (simp add: set_get_unannounced_solves)
      ultimately have "solve_key r \<in> ?K" by (metis (mono_tags, lifting) imageI)
      with \<open>sc_guild_id r = g\<close> show ?thesis by simp
    qed
  qed
qed




lemma none_pending_same:
  assumes "get_unannounced_solves d g = []"
  shows "map (\<lambda>r. if sc_guild_id r = g then r\<lparr>sc_announced := True\<rparr> else r)
           (solved_challenges d) = solved_challenges d"
proof (rule map_idI)
  fix r
  assume r: "r \<in> set (solved_challenges d)"
  have "{r \<in> set (solved_challenges d). sc_guild_id r = g \<and> \<not> sc_announced r} = {}"
    using assms set_get_unannounced_solves [of d g] by simp
  then have "sc_guild_id r = g \<Longrightarrow> sc_announced r"
    using r by blast
  then show "(if sc_guild_id r = g then r\<lparr>sc_announced := True\<rparr> else r) = r"
    by (cases "sc_guild_id r = g") simp_all
qed

lemma marked_not_pending:
  "\<not> (sc_guild_id (if sc_guild_id r = g then r\<lparr>sc_announced := True\<rparr> else r) = g \<and>
       \<not> sc_announced (if sc_guild_id r = g then r\<lparr>sc_announced := True\<rparr> else r))"
  by (cases "sc_guild_id r = g") simp_all

lemma get_unannounced_solves_all_marked:
  "get_unannounced_solves
     (d\<lparr>solved_challenges :=
          map (\<lambda>r. if sc_guild_id r = g then r\<lparr>sc_announced := True\<rparr> else r)
            (solved_challenges d)\<rparr>) g = []"
proof -
  have "filter (\<lambda>r. sc_guild_id r = g \<and> \<not> sc_announced r)
      (map (\<lambda>r. if sc_guild_id r = g then r\<lparr>sc_announced := True\<rparr> else r)
        (solved_challenges d)) = []"
    unfolding filter_map comp_def
    by (simp only: marked_not_pending) simp
  then show ?thesis
    by (simp add: get_unannounced_solves_def)
qed

lemma length_filter_key:
  "distinct (map f xs) \<Longrightarrow> length (filter (\<lambda>x. f x = k) xs) = (if k \<in> f ` set xs then 1 else 0)"
proof (induction xs)
  case Nil
  show ?case by simp
next
  case (Cons x xs)
  then show ?case by (auto simp: image_iff)
qed

lemma length_concat_map_filter:
  "(\<And>x. x \<in> set xs \<Longrightarrow> length (f x) = (if P x then 1 else 0)) \<Longrightarrow>
   length (concat (map f xs)) = length (filter P xs)"
  by (induction xs) simp_all

lemma length_get_challenge_solvers:
  assumes "distinct (map tracked_key (tracked_users d))"
  shows "length (get_challenge_solvers d g c) = length (tracked_solves d g c)"
proof -
  let ?rows = "filter (\<lambda>sc. sc_guild_id sc = g \<and> sc_challenge_name sc = c) (solved_challenges d)"
  let ?tracked = "\<lambda>sc. (sc_guild_id sc, sc_username sc) \<in> tracked_key ` set (tracked_users d)"
  have one: "length (filter (\<lambda>tu. sc_guild_id sc = tu_guild_id tu \<and> sc_username sc = tu_username tu)
      (tracked_users d)) = (if ?tracked sc then 1 else 0)" for sc
  proof -
    have "(\<lambda>tu. sc_guild_id sc = tu_guild_id tu \<and> sc_username sc = tu_username tu) =
        (\<lambda>tu. tracked_key tu = (sc_guild_id sc, sc_username sc))"
      by (auto simp: tracked_key_def)
    then show ?thesis
      using length_filter_key [OF assms, of "(sc_guild_id sc, sc_username sc)"] by simp
  qed
  have "length (get_challenge_solvers d g c) = length (filter ?tracked ?rows)"
    unfolding get_challenge_solvers_def length_sort
    by (rule length_concat_map_filter) (simp only: length_map one)
  also have "filter ?tracked ?rows = tracked_solves d g c"
    by (simp add: tracked_solves_def conj_ac cong: conj_cong)
  finally show ?thesis .
qed

lemma sends_announce_solve:
  "sends (announce_solve e g ch solve w) = sends w \<or>
   (\<exists>im r. sends (announce_solve e g ch solve w) =
        sends w @ [\<lparr>sd_guild_id = g_id g, sd_channel = ch, sd_message = File im, sd_result = r\<rparr>] \<and>
      im_username im = sc_username solve \<and> im_challenge_name im = sc_challenge_name solve \<and>
      im_server_rank im = length (get_challenge_solvers (db w) (g_id g) (sc_challenge_name solve)))"
  by (simp add: announce_solve_def Let_def split_beta send_def split: fetch_result.splits)

lemmas bot_defs =
  announce_new_solves_def announce_solve_def resolve_channel_def get_announcement_channel_def
  send_def mark_announced_def tick_def get_unannounced_solves_def get_challenge_solvers_def
  Let_def

lemmas example_defs =
  good_env_def bad_env_def guild_one_def guild_silent_def general_def pending_world_def
  profile_def

lemma key_announced_iff:
  "key_announced d k \<longleftrightarrow>
     k \<in> solve_key ` set (solved_challenges d) \<and>
     (\<forall>r\<in>set (solved_challenges d). solve_key r = k \<longrightarrow> sc_announced r)"
  by (auto simp: key_announced_def list_all_iff)

lemma solved_add_user [simp]:
  "solved_challenges (snd (add_user g u i d)) = solved_challenges d"
  by (simp add: add_user_def)

lemma solved_check_and_set_first_blood [simp]:
  "solved_challenges (snd (check_and_set_first_blood g c u d)) = solved_challenges d"
  by (simp add: check_and_set_first_blood_def)

lemma keys_add_solved_challenge:
  "solve_key ` set (solved_challenges (snd (add_solved_challenge g u c cat p dt fb d))) =
     insert (g, lower u, c) (solve_key ` set (solved_challenges d))"
  by (auto simp: add_solved_challenge_def solve_key_def)

lemma keys_mark [simp]:
  "solve_key ` set (solved_challenges (mark_challenge_announced g u c d)) =
     solve_key ` set (solved_challenges d)"
  using mark_keys [of g u c d] by (metis set_map)

lemma keys_seed_solve:
  "solve_key ` set (solved_challenges (seed_solve g u c d)) =
     insert (g, lower u, ch_name c) (solve_key ` set (solved_challenges d))"
  by (simp add: seed_solve_def record_solve_eq keys_add_solved_challenge)

lemma keys_fold_seed_solve:
  "solve_key ` set (solved_challenges (fold (seed_solve g u) cs d)) =
     (\<lambda>c. (g, lower u, ch_name c)) ` set cs \<union> solve_key ` set (solved_challenges d)"
  by (induction cs arbitrary: d) (auto simp: keys_seed_solve)

lemma mark_announces:
  "r \<in> set (solved_challenges (mark_challenge_announced g u c d)) \<Longrightarrow>
   solve_key r = (g, lower u, c) \<Longrightarrow> sc_announced r"
  by (auto simp: mark_challenge_announced_def split: if_splits)

lemma key_announced_seed_solve: "key_announced (seed_solve g u c d) (g, lower u, ch_name c)"
  unfolding key_announced_iff keys_seed_solve
  by (auto simp: seed_solve_def dest: mark_announces)

lemma mark_announced_or_old:
  "r \<in> set (solved_challenges (mark_challenge_announced g u c d)) \<Longrightarrow>
   sc_announced r \<or> r \<in> set (solved_challenges d)"
  by (auto simp: mark_challenge_announced_def split: if_splits)

lemma key_announced_step:
  assumes "key_announced d k"
  shows "key_announced (snd (db_step x d)) k"
proof (cases x)
  case (AddSolvedChallenge g u c cat p dt fb)
  show ?thesis
  proof (cases "(g, lower u, c) \<in> solve_key ` set (solved_challenges d)")
    case True
    then show ?thesis
      using assms AddSolvedChallenge by (simp add: add_solved_challenge_def)
  next
    case False
    then have "k \<noteq> (g, lower u, c)"
      using assms unfolding key_announced_iff by blast
    then show ?thesis
      using assms AddSolvedChallenge False
      by (auto simp: key_announced_iff add_solved_challenge_def solve_key_def)
  qed
next
  case (MarkChallengeAnnounced g u c)
  show ?thesis
    using assms MarkChallengeAnnounced
    unfolding key_announced_iff
    by (auto dest: mark_announced_or_old)
qed (use assms in \<open>simp_all add: key_announced_iff remove_user_def set_announcement_channel_def\<close>)

lemma key_announced_reach: "db_reach d d' \<Longrightarrow> key_announced d k \<Longrightarrow> key_announced d' k"
proof -
  have "key_announced d k \<Longrightarrow> key_announced (db_run cs d) k" for cs
    by (induction cs arbitrary: d) (simp_all add: key_announced_step)
  then show "db_reach d d' \<Longrightarrow> key_announced d k \<Longrightarrow> key_announced d' k"
    by (auto simp: db_reach_def)
qed

lemma key_announced_fold_seed_solve:
  "c \<in> set cs \<Longrightarrow> key_announced (fold (seed_solve g u) cs d) (g, lower u, ch_name c)"
proof (induction cs arbitrary: d)
  case Nil
  then show ?case by simp
next
  case (Cons x cs)
  show ?case
  proof (cases "c \<in> set cs")
    case True
    then show ?thesis using Cons.IH by simp
  next
    case False
    then have "c = x" using Cons.prems by simp
    have "db_reach (seed_solve g u x d) (fold (seed_solve g u) cs (seed_solve g u x d))"
      by (rule db_reach_fold) (rule db_reach_seed_solve)
    then show ?thesis
      using key_announced_seed_solve [of g u x d] \<open>c = x\<close>
      by (simp add: key_announced_reach)
  qed
qed

lemma db_inv_seed: "db_inv d \<Longrightarrow> db_inv (fold (seed_solve g u) cs d)"
  by (rule db_inv_reach [OF db_reach_fold]) (rule db_reach_seed_solve)

lemma distinct_account_names:
  assumes "distinct (map solve_key (solved_challenges d))"
  shows "distinct (map sc_challenge_name (account_solves d g u))"
proof -
  have "distinct (map solve_key (account_solves d g u))"
    using assms by (simp add: account_solves_def distinct_map_filter)
  moreover have "map solve_key (account_solves d g u) =
      map (\<lambda>n. (g, lower u, n)) (map sc_challenge_name (account_solves d g u))"
    by (simp add: account_solves_def solve_key_def)
  ultimately have "distinct (map (\<lambda>n. (g, lower u, n))
      (map sc_challenge_name (account_solves d g u)))"
    by (simp only:)
  then show ?thesis
    unfolding distinct_map by (rule conjunct1)
qed

lemma account_names_keys:
  "sc_challenge_name ` set (account_solves d g u) =
     {n. (g, lower u, n) \<in> solve_key ` set (solved_challenges d)}"
  by (force simp: account_solves_def solve_key_def)

lemma seeded_account:
  assumes inv: "db_inv d"
    and dist: "distinct (map ch_name cs)"
    and old: "sc_challenge_name ` set (account_solves d g u) \<subseteq> ch_name ` set cs"
  shows "sc_challenge_name ` set (account_solves (fold (seed_solve g u) cs d) g u) =
           ch_name ` set cs"
    and "length (account_solves (fold (seed_solve g u) cs d) g u) = length cs"
    and "list_all sc_announced (account_solves (fold (seed_solve g u) cs d) g u)"
proof -
  let ?d = "fold (seed_solve g u) cs d"
  show names: "sc_challenge_name ` set (account_solves ?d g u) = ch_name ` set cs"
    using old unfolding account_names_keys keys_fold_seed_solve by auto
  have "distinct (map sc_challenge_name (account_solves ?d g u))"
    using db_inv_seed [OF inv, of g u cs] by (simp add: db_inv_def distinct_account_names)
  then have "length (account_solves ?d g u) = card (sc_challenge_name ` set (account_solves ?d g u))"
    by (metis distinct_card length_map set_map)
  also have "\<dots> = card (ch_name ` set cs)"
    by (simp add: names)
  also have "\<dots> = length cs"
    using dist by (metis distinct_card length_map set_map)
  finally show "length (account_solves ?d g u) = length cs" .
  show "list_all sc_announced (account_solves ?d g u)"
    unfolding list_all_iff
  proof
    fix r
    assume r: "r \<in> set (account_solves ?d g u)"
    then have "sc_challenge_name r \<in> ch_name ` set cs"
      using names by blast
    then obtain c where c: "c \<in> set cs" "sc_challenge_name r = ch_name c"
      by blast
    have k: "solve_key r = (g, lower u, ch_name c)" and m: "r \<in> set (solved_challenges ?d)"
      using r c by (simp_all add: account_solves_def solve_key_def)
    show "sc_announced r"
      using key_announced_fold_seed_solve [OF c(1), of g u d] k m
      by (simp add: key_announced_iff)
  qed
qed

lemma delivered_append: "delivered (xs @ ys) k \<longleftrightarrow> delivered xs k \<or> delivered ys k"
  by (auto simp: delivered_def)

lemma dispatched_append: "dispatched (xs @ ys) k \<longleftrightarrow> dispatched xs k \<or> dispatched ys k"
  by (auto simp: dispatched_def)

lemma delivered_dispatched: "delivered log k \<Longrightarrow> dispatched log k"
  by (auto simp: delivered_def dispatched_def)

lemma announced_in_mark:
  "announced_in (mark_challenge_announced g u c d) k \<Longrightarrow>
   announced_in d k \<or> k = (g, lower u, c)"
  by (auto simp: announced_in_def mark_challenge_announced_def split: if_splits)

lemma announced_in_add_solved_challenge:
  "announced_in (snd (add_solved_challenge g u c cat p dt fb d)) k \<longleftrightarrow> announced_in d k"
  by (auto simp: announced_in_def add_solved_challenge_def)

lemma announced_in_record_solve:
  "announced_in (snd (record_solve g u c d)) k \<longleftrightarrow> announced_in d k"
  by (simp add: record_solve_eq announced_in_add_solved_challenge)
    (simp add: announced_in_def)

text \<open>The first part of \<open>/refresh\<close> sends nothing and announces nothing.\<close>

lemma announced_in_refresh_challenges:
  "announced_in (fst (fold (refresh_challenge g u s ex) cs p)) k \<longleftrightarrow> announced_in (fst p) k"
proof (induction cs arbitrary: p)
  case Nil
  show ?case by simp
next
  case (Cons c cs)
  have "announced_in (fst (refresh_challenge g u s ex c p)) k \<longleftrightarrow> announced_in (fst p) k"
    by (simp add: refresh_challenge_def split_beta announced_in_record_solve)
  then show ?case
    by (simp add: Cons.IH)
qed

lemma refresh_user_quiet:
  "sends (fst (refresh_user e g t p)) = sends (fst p) \<and>
   (announced_in (db (fst (refresh_user e g t p))) k \<longleftrightarrow> announced_in (db (fst p)) k)"
  using announced_in_refresh_challenges [of g _ _ _ _ "(db (fst p), snd p)" k]
  by (simp add: refresh_user_def split_beta Let_def split: fetch_result.splits)

lemma refresh_users_quiet:
  "sends (fst (fold (refresh_user e g) ts p)) = sends (fst p) \<and>
   (announced_in (db (fst (fold (refresh_user e g) ts p))) k \<longleftrightarrow> announced_in (db (fst p)) k)"
proof (induction ts arbitrary: p)
  case Nil
  show ?case by simp
next
  case (Cons t ts)
  show ?case
    using Cons.IH [of "refresh_user e g t p"] refresh_user_quiet [of e g t p k] by simp
qed

lemma only_delivered_refl: "only_delivered w w"
  unfolding only_delivered_def by (rule exI [of _ "[]"]) simp

lemma only_delivered_trans:
  assumes "only_delivered w w'" and "only_delivered w' w''"
  shows "only_delivered w w''"
proof -
  obtain n1 where n1: "sends w' = sends w @ n1"
      "\<And>k. announced_in (db w') k \<Longrightarrow> announced_in (db w) k \<or> delivered n1 k"
    using assms(1) unfolding only_delivered_def by blast
  obtain n2 where n2: "sends w'' = sends w' @ n2"
      "\<And>k. announced_in (db w'') k \<Longrightarrow> announced_in (db w') k \<or> delivered n2 k"
    using assms(2) unfolding only_delivered_def by blast
  have "sends w'' = sends w @ (n1 @ n2)"
    using n1(1) n2(1) by simp
  moreover have "announced_in (db w'') k \<longrightarrow> announced_in (db w) k \<or> delivered (n1 @ n2) k" for k
    using n1(2) [of k] n2(2) [of k] by (auto simp: delivered_append)
  ultimately show ?thesis
    unfolding only_delivered_def by blast
qed

lemma send_result:
  "send e g ch m w =
     (channel_send e (clock w) ch m,
      tick (w\<lparr>sends := sends w @
        [\<lparr>sd_guild_id = g, sd_channel = ch, sd_message = m,
          sd_result = channel_send e (clock w) ch m\<rparr>]\<rparr>))"
  by (simp add: send_def Let_def)

lemma only_delivered_quiet:
  "db w' = db w \<Longrightarrow> sends w' = sends w @ new \<Longrightarrow> only_delivered w w'"
  unfolding only_delivered_def by auto

lemma only_delivered_refresh_send: "only_delivered w (snd (refresh_send e g ch solve w))"
proof -
  let ?im = "\<lparr>im_username = ns_username solve, im_score = ns_score solve,
      im_challenge_name = ns_challenge_name solve, im_category = ns_category solve,
      im_points = ns_points solve,
      im_server_rank = length (get_challenge_solvers (db w) g (ns_challenge_name solve)),
      im_total_solvers = 0, im_is_first_blood = ns_first_blood solve\<rparr>"
  let ?m = "\<lparr>sd_guild_id = g, sd_channel = ch, sd_message = File ?im, sd_result = Sent\<rparr>"
  show ?thesis
  proof (cases "generate_solve_image e (clock w) ?im \<and>
      channel_send e (Suc (clock w)) ch (File ?im) = Sent")
    case True
    then have d: "db (snd (refresh_send e g ch solve w)) =
        mark_challenge_announced g (ns_username solve) (ns_challenge_name solve) (db w)"
      and s: "sends (snd (refresh_send e g ch solve w)) = sends w @ [?m]"
      by (simp_all add: refresh_send_def Let_def send_result)
    have "delivered [?m] (g, lower (ns_username solve), ns_challenge_name solve)"
      by (simp add: delivered_def notifies_def)
    then show ?thesis
      unfolding only_delivered_def d s using announced_in_mark by blast
  next
    case False
    then have "db (snd (refresh_send e g ch solve w)) = db w \<and>
        (\<exists>new. sends (snd (refresh_send e g ch solve w)) = sends w @ new)"
      by (auto simp: refresh_send_def Let_def send_result split: send_result.splits)
    then show ?thesis
      by (auto intro: only_delivered_quiet)
  qed
qed

lemma only_delivered_refresh_announce: "only_delivered w (refresh_announce e g ch xs w)"
proof (induction xs arbitrary: w)
  case Nil
  show ?case by (simp add: only_delivered_refl)
next
  case (Cons x xs)
  have a: "only_delivered w (snd (refresh_send e g ch x w))"
    by (rule only_delivered_refresh_send)
  have b: "only_delivered (snd (refresh_send e g ch x w))
      (refresh_announce e g ch xs (snd (refresh_send e g ch x w)))"
    by (rule Cons.IH)
  show ?case
    using a only_delivered_trans [OF a b] by (simp add: split_beta split: bool.splits)
qed

lemma only_delivered_refresh: "only_delivered w (refresh e g ch w)"
proof -
  let ?p = "fold (refresh_user e g) (get_tracked_users (db w) g) (w, [])"
  have q: "sends (fst ?p) = sends w" "\<And>k. announced_in (db (fst ?p)) k \<longleftrightarrow> announced_in (db w) k"
    using refresh_users_quiet [of e g _ "(w, [])"] by simp_all
  have a: "only_delivered w (fst ?p)"
    unfolding only_delivered_def using q by simp
  have b: "only_delivered w (refresh_announce e g ch (snd ?p) (fst ?p))"
    by (rule only_delivered_trans [OF a only_delivered_refresh_announce])
  show ?thesis
    using a b by (simp add: refresh_def Let_def split_beta only_delivered_refl)
qed

lemma in_get_solved_challenges:
  "n \<in> get_solved_challenges d g u \<longleftrightarrow>
     list_ex (\<lambda>r. sc_guild_id r = g \<and> sc_username r = lower u \<and> sc_challenge_name r = n)
       (solved_challenges d)"
  by (auto simp: get_solved_challenges_def list_ex_iff)

lemma only_delivered_new_sends:
  "only_delivered w w' \<Longrightarrow> announced_in (db w') k \<Longrightarrow>
   announced_in (db w) k \<or> delivered (new_sends w w') k"
  unfolding only_delivered_def new_sends_def by (cases k) fastforce

lemma only_byI:
  assumes "sends w' = sends w @ new"
    and "\<And>k. announced_in (db w') k \<Longrightarrow> announced_in (db w) k \<or> dispatched new k \<or> X k"
  shows "only_by X w w'"
  unfolding only_by_def using assms by blast

lemma only_by_refl: "only_by X w w"
  by (rule only_byI [of _ _ "[]"]) simp_all

lemma only_by_trans:
  assumes "only_by X w w'" and "only_by X w' w''"
  shows "only_by X w w''"
proof -
  obtain n1 where n1: "sends w' = sends w @ n1"
      "\<And>k. announced_in (db w') k \<Longrightarrow> announced_in (db w) k \<or> dispatched n1 k \<or> X k"
    using assms(1) unfolding only_by_def by blast
  obtain n2 where n2: "sends w'' = sends w' @ n2"
      "\<And>k. announced_in (db w'') k \<Longrightarrow> announced_in (db w') k \<or> dispatched n2 k \<or> X k"
    using assms(2) unfolding only_by_def by blast
  show ?thesis
  proof (rule only_byI [of _ _ "n1 @ n2"])
    show "sends w'' = sends w @ n1 @ n2"
      using n1(1) n2(1) by simp
    fix k
    assume "announced_in (db w'') k"
    then show "announced_in (db w) k \<or> dispatched (n1 @ n2) k \<or> X k"
      using n1(2) [of k] n2(2) [of k] by (auto simp: dispatched_append)
  qed
qed

lemma only_by_mono: "only_by X w w' \<Longrightarrow> (\<And>k. X k \<Longrightarrow> Y k) \<Longrightarrow> only_by Y w w'"
  unfolding only_by_def by blast

lemma only_delivered_only_by: "only_delivered w w' \<Longrightarrow> only_by X w w'"
  unfolding only_delivered_def only_by_def using delivered_dispatched by blast

lemma only_by_tick: "only_by X w (tick w)"
  by (rule only_byI [of _ _ "[]"]) simp_all

text \<open>The deliverer's loop body: a send of the image exactly when it is prepared.\<close>

lemma sends_announce_solve_cases:
  "(prepared e g s w \<and>
      (\<exists>m. sends (announce_solve e g ch s w) = sends w @ [m] \<and>
           notifies m (g_id g, lower (sc_username s), sc_challenge_name s))) \<or>
   (\<not> prepared e g s w \<and> sends (announce_solve e g ch s w) = sends w)"
proof (cases "fetch_user e (clock w) (sc_username s)")
  case (Fetched user)
  let ?im = "\<lparr>im_username = sc_username s, im_score = cu_score user,
      im_challenge_name = sc_challenge_name s, im_category = sc_category s,
      im_points = sc_points s,
      im_server_rank = length (get_challenge_solvers (db w) (g_id g) (sc_challenge_name s)),
      im_total_solvers = 0, im_is_first_blood = sc_first_blood s\<rparr>"
  show ?thesis
  proof (cases "generate_solve_image e (Suc (clock w)) ?im")
    case True
    with Fetched have p: "prepared e g s w"
      by (simp add: prepared_def)
    from True Fetched have "sends (announce_solve e g ch s w) =
        sends w @ [\<lparr>sd_guild_id = g_id g, sd_channel = ch, sd_message = File ?im,
          sd_result = channel_send e (Suc (Suc (clock w))) ch (File ?im)\<rparr>]"
      by (simp add: announce_solve_def Let_def split_beta send_result)
    then show ?thesis
      using p by (simp add: notifies_def)
  next
    case False
    with Fetched have "\<not> prepared e g s w"
      by (simp add: prepared_def)
    with Fetched False show ?thesis
      by (simp add: announce_solve_def Let_def)
  qed
next
  case UserNotFoundError
  then show ?thesis
    by (simp add: announce_solve_def prepared_def)
next
  case CryptoHackAPIError
  then show ?thesis
    by (simp add: announce_solve_def prepared_def)
next
  case OtherError
  then show ?thesis
    by (simp add: announce_solve_def prepared_def)
qed

lemma only_by_announce_solve:
  "only_by (\<lambda>k. k = (g_id g, lower (sc_username s), sc_challenge_name s) \<and> \<not> prepared e g s w)
     w (announce_solve e g ch s w)"
proof -
  let ?k = "(g_id g, lower (sc_username s), sc_challenge_name s)"
  have mark: "announced_in (db (announce_solve e g ch s w)) k \<Longrightarrow>
      announced_in (db w) k \<or> k = ?k" for k
    unfolding db_announce_solve by (rule announced_in_mark)
  from sends_announce_solve_cases [of e g s w ch] show ?thesis
  proof
    assume "prepared e g s w \<and>
      (\<exists>m. sends (announce_solve e g ch s w) = sends w @ [m] \<and> notifies m ?k)"
    then obtain m where m: "sends (announce_solve e g ch s w) = sends w @ [m]" "notifies m ?k"
      by blast
    then have "dispatched [m] ?k"
      by (simp add: dispatched_def)
    then show ?thesis
      using mark by (intro only_byI [OF m(1)]) blast
  next
    assume a: "\<not> prepared e g s w \<and> sends (announce_solve e g ch s w) = sends w"
    show ?thesis
      using mark a by (intro only_byI [of _ _ "[]"]) auto
  qed
qed

lemma only_by_announce_loop:
  "only_by (gave_up_in_loop e g ch xs w) w (fold (announce_solve e g ch) xs w)"
proof (induction xs arbitrary: w)
  case Nil
  show ?case by (simp add: only_by_refl)
next
  case (Cons x xs)
  let ?X = "gave_up_in_loop e g ch (x # xs) w"
  have a: "only_by ?X w (announce_solve e g ch x w)"
    by (rule only_by_mono [OF only_by_announce_solve]) simp
  have b: "only_by ?X (announce_solve e g ch x w)
      (fold (announce_solve e g ch) xs (announce_solve e g ch x w))"
    by (rule only_by_mono [OF Cons.IH]) simp
  have "fold (announce_solve e g ch) (x # xs) w =
      fold (announce_solve e g ch) xs (announce_solve e g ch x w)"
    by simp
  then show ?case
    using only_by_trans [OF a b] by (simp only:)
qed

lemma announced_in_fold_mark:
  "announced_in (db (fold (\<lambda>s. mark_announced g (sc_username s) (sc_challenge_name s)) xs w)) k \<Longrightarrow>
   announced_in (db w) k \<or> k \<in> (\<lambda>s. (g, lower (sc_username s), sc_challenge_name s)) ` set xs"
proof (induction xs arbitrary: w)
  case Nil
  then show ?case by simp
next
  case (Cons x xs)
  from Cons.IH [of "mark_announced g (sc_username x) (sc_challenge_name x) w"] Cons.prems
  have "announced_in (mark_challenge_announced g (sc_username x) (sc_challenge_name x) (db w)) k \<or>
      k \<in> (\<lambda>s. (g, lower (sc_username s), sc_challenge_name s)) ` set xs"
    by simp
  then show ?case
    using announced_in_mark [of g "sc_username x" "sc_challenge_name x" "db w" k] by auto
qed

lemma only_by_announce_new_solves:
  "only_by (gave_up (AnnounceNewSolves e g) w) w (announce_new_solves e g w)"
proof (cases "get_unannounced_solves (db w) (g_id g) = []")
  case True
  then show ?thesis
    by (simp add: announce_new_solves_def only_by_refl)
next
  case False
  let ?xs = "get_unannounced_solves (db w) (g_id g)"
  show ?thesis
  proof (cases "resolve_channel e g w")
    case None
    let ?w' = "fold (\<lambda>s. mark_announced (g_id g) (sc_username s) (sc_challenge_name s)) ?xs (tick w)"
    have "only_by (gave_up (AnnounceNewSolves e g) w) w ?w'"
    proof (rule only_byI [of _ _ "[]"])
      show "sends ?w' = sends w @ []"
        by simp
      fix k
      assume "announced_in (db ?w') k"
      from announced_in_fold_mark [OF this]
      show "announced_in (db w) k \<or> dispatched [] k \<or> gave_up (AnnounceNewSolves e g) w k"
        using None by auto
    qed
    then show ?thesis
      using False None by (simp add: announce_new_solves_def)
  next
    case (Some ch)
    have a: "only_by (gave_up (AnnounceNewSolves e g) w) w (tick w)"
      by (rule only_by_tick)
    have "only_by (gave_up (AnnounceNewSolves e g) w) (tick w)
        (fold (announce_solve e g ch) ?xs (tick w))"
      by (rule only_by_mono [OF only_by_announce_loop]) (simp add: Some)
    then show ?thesis
      using False Some only_by_trans [OF a] by (simp add: announce_new_solves_def)
  qed
qed

lemma announced_in_fold_record:
  "announced_in (fold (\<lambda>c d. if P c then snd (record_solve g u c d) else d) cs d) k \<longleftrightarrow>
   announced_in d k"
  by (induction cs arbitrary: d) (simp_all add: announced_in_record_solve)

lemma only_by_check_user_solves: "only_by X w (check_user_solves e g u w)"
  by (rule only_byI [of _ _ "[]"])
    (simp_all add: check_user_solves_def Let_def announced_in_fold_record
      split: fetch_result.splits)

lemma announced_in_fold_seed:
  "announced_in (fold (seed_solve g u) cs d) k \<Longrightarrow>
   announced_in d k \<or> k \<in> (\<lambda>c. (g, lower u, ch_name c)) ` set cs"
proof (induction cs arbitrary: d)
  case Nil
  then show ?case by simp
next
  case (Cons c cs)
  from Cons.IH [of "seed_solve g u c d"] Cons.prems
  have "announced_in (seed_solve g u c d) k \<or> k \<in> (\<lambda>c. (g, lower u, ch_name c)) ` set cs"
    by simp
  moreover have "announced_in (seed_solve g u c d) k \<Longrightarrow>
      announced_in d k \<or> k = (g, lower u, ch_name c)"
    unfolding seed_solve_def
    using announced_in_mark [of g u "ch_name c" "snd (record_solve g u c d)" k]
    by (simp add: announced_in_record_solve)
  ultimately show ?case by auto
qed

lemma announced_in_add_user [simp]:
  "announced_in (snd (add_user g u i d)) k \<longleftrightarrow> announced_in d k"
  by (simp add: announced_in_def)

lemma only_by_add_user_command:
  "only_by (seeded (AddUserCommand e g u) w) w (add_user_command e g u w)"
proof (rule only_byI [of _ _ "[]"])
  show "sends (add_user_command e g u w) = sends w @ []"
    by (simp add: add_user_command_def split_beta split: fetch_result.splits)
  fix k
  assume a: "announced_in (db (add_user_command e g u w)) k"
  show "announced_in (db w) k \<or> dispatched [] k \<or> seeded (AddUserCommand e g u) w k"
  proof (cases "fetch_user e (clock w) u")
    case (Fetched user)
    show ?thesis
    proof (cases "(g, lower (cu_username user)) \<in> tracked_key ` set (tracked_users (db w))")
      case True
      then show ?thesis
        using a Fetched by (simp add: add_user_command_def split_beta add_user_def)
    next
      case False
      then have "fst (add_user g (cu_username user) None (db w))"
        by (simp add: add_user_def)
      then have "announced_in (fold (seed_solve g (cu_username user)) (cu_solved_challenges user)
          (snd (add_user g (cu_username user) None (db w)))) k"
        using a Fetched by (simp add: add_user_command_def split_beta)
      from announced_in_fold_seed [OF this] show ?thesis
        using Fetched False by auto
    qed
  qed (use a in \<open>simp_all add: add_user_command_def\<close>)
qed

lemma only_by_exec: "only_by (\<lambda>k. seeded x w k \<or> gave_up x w k) w (exec x w)"
proof (cases x)
  case (CheckUserSolves e g u)
  then show ?thesis by (simp add: only_by_check_user_solves)
next
  case (AnnounceNewSolves e g)
  have "only_by (\<lambda>k. seeded x w k \<or> gave_up x w k) w (announce_new_solves e g w)"
    by (rule only_by_mono [OF only_by_announce_new_solves]) (simp only: AnnounceNewSolves simp_thms)
  with AnnounceNewSolves show ?thesis by simp
next
  case (AddUserCommand e g u)
  have "only_by (\<lambda>k. seeded x w k \<or> gave_up x w k) w (add_user_command e g u w)"
    by (rule only_by_mono [OF only_by_add_user_command]) (simp only: AddUserCommand simp_thms)
  with AddUserCommand show ?thesis by simp
next
  case (RemoveUserCommand g u)
  have "only_by (\<lambda>k. seeded x w k \<or> gave_up x w k) w (remove_user_command g u w)"
    by (rule only_byI [of _ _ "[]"])
      (simp_all add: remove_user_command_def remove_user_def announced_in_def)
  with RemoveUserCommand show ?thesis by simp
next
  case (SetChannelCommand g ch)
  have "only_by (\<lambda>k. seeded x w k \<or> gave_up x w k) w (set_channel_command g ch w)"
    by (rule only_byI [of _ _ "[]"])
      (simp_all add: set_channel_command_def set_announcement_channel_def announced_in_def)
  with SetChannelCommand show ?thesis by simp
next
  case (RefreshCommand e g ch)
  have "only_by (\<lambda>k. seeded x w k \<or> gave_up x w k) w (refresh e g ch w)"
    by (rule only_delivered_only_by [OF only_delivered_refresh])
  with RefreshCommand show ?thesis by simp
qed

lemma run_snoc: "run (xs @ [x]) w = exec x (run xs w)"
  by (induction xs arbitrary: w) simp_all

lemmas run_defs =
  add_user_command_def check_user_solves_def in_get_solved_challenges
  seed_solve_def record_solve_eq bot_defs growing_env_def guild_one_def general_def
  profile_def init_world_def store_defs announced_in_def dispatched_def notifies_def
  prepared_def

lemma untracked_world_eq:
  "untracked_world =
     \<lparr>db = \<lparr>tracked_users = [],
             solved_challenges =
               [\<lparr>sc_guild_id = 1, sc_username = ''alice'', sc_challenge_name = ''Old Name'',
                 sc_category = ''Misc'', sc_points = 10, sc_solved_date = ''2024-01-01'',
                 sc_first_blood = True, sc_announced = False\<rparr>],
             guild_settings = Map.empty,
             guild_first_bloods =
               [\<lparr>fb_guild_id = 1, fb_challenge_name = ''Old Name'', fb_first_solver = ''alice''\<rparr>]\<rparr>,
      sends = [], clock = 2\<rparr>"
  by (simp add: untracked_world_def run_defs renaming_env_def remove_user_command_def)

subsection \<open>Order of the unannounced solves\<close>

text \<open>
  C1. The unannounced-solves query is to return the pending solves oldest first. On the
  store \<open>two_pending\<close> the code returns bob's solve of 2 January before alice's of
  1 January: the dates of the result are not in ascending order.
\<close>

theorem get_unannounced_solves_newest_first:
  "map sc_username (get_unannounced_solves two_pending 1) = [''bob'', ''alice''] \<and>
   map sc_solved_date (get_unannounced_solves two_pending 1) = [''2024-01-02'', ''2024-01-01''] \<and>
   \<not> sorted (map sc_solved_date (get_unannounced_solves two_pending 1))"
  by (simp add: two_pending_eq get_unannounced_solves_def)

subsection \<open>The server rank of an announcement\<close>

text \<open>
  C2. The server rank in the image of a solve is to be the position of its solver in the
  guild: the number of recorded solves of the guild and challenge dated no later than
  the solve. The code takes the length of \<open>get_challenge_solvers\<close>, on the comment
  that the current user is the latest. With alice's and bob's solves both pending the
  comment is false of alice: both images carry rank 2, and her position is 1. With alice
  untracked the join drops her solve: bob's image carries rank 1, and his position is 2.
\<close>

theorem server_rank_ignores_dates:
  "map sc_username (get_unannounced_solves two_pending 1) = [''bob'', ''alice''] \<and>
   map (spec_server_rank two_pending) (get_unannounced_solves two_pending 1) = [2, 1] \<and>
   image_ranks (sends (announce_new_solves good_env guild_one pending_world)) =
     [(''bob'', 2), (''alice'', 2)] \<and>
   image_ranks (sends (announce_new_solves good_env guild_one
       (remove_user_command 1 ''alice'' pending_world))) =
     [(''bob'', 1), (''alice'', 1)]"
  by (simp add: bot_defs example_defs two_pending_eq store_defs image_ranks_def
      spec_server_rank_def remove_user_command_def)

subsection \<open>What sets the announced flag\<close>

text \<open>
  C3. In every state that the operations of the bot reach from the empty one, a solve
  with \<open>announced\<close> true has had a call of \<open>channel.send\<close> made for its image, or was
  seeded by an \<open>/adduser\<close> that added its account, or was given up by a run of
  \<open>_announce_new_solves\<close> in which it was pending and either no channel resolved or
  the call of \<open>fetch_user\<close> or of \<open>generate_solve_image\<close> that this run made
  for it raised, before the send. Without the last two causes the statement is false:
  seeding alone announces solves with no send at all.
\<close>

theorem announced_has_cause:
  "announced_in (db (run ops init_world)) k \<Longrightarrow>
   dispatched (sends (run ops init_world)) k \<or>
   (\<exists>i<length ops. seeded (ops ! i) (run (take i ops) init_world) k \<or>
                    gave_up (ops ! i) (run (take i ops) init_world) k)"
proof (induction ops rule: rev_induct)
  case Nil
  then show ?case
    by (simp add: init_world_def init_db_def announced_in_def)
next
  case (snoc x xs)
  let ?w = "run xs init_world"
  obtain new where new: "sends (exec x ?w) = sends ?w @ new"
    and step: "\<And>k. announced_in (db (exec x ?w)) k \<Longrightarrow>
      announced_in (db ?w) k \<or> dispatched new k \<or> seeded x ?w k \<or> gave_up x ?w k"
    using only_by_exec [of x ?w] unfolding only_by_def by blast
  have "announced_in (db (exec x ?w)) k"
    using snoc.prems by (simp add: run_snoc)
  from step [OF this] show ?case
  proof (elim disjE)
    assume "announced_in (db ?w) k"
    from snoc.IH [OF this] show ?thesis
    proof
      assume "dispatched (sends ?w) k"
      then show ?thesis
        by (simp add: run_snoc new dispatched_append)
    next
      assume "\<exists>i<length xs. seeded (xs ! i) (run (take i xs) init_world) k \<or>
          gave_up (xs ! i) (run (take i xs) init_world) k"
      then obtain i where "i < length xs"
          "seeded (xs ! i) (run (take i xs) init_world) k \<or>
           gave_up (xs ! i) (run (take i xs) init_world) k"
        by blast
      then have "i < length (xs @ [x]) \<and>
          (seeded ((xs @ [x]) ! i) (run (take i (xs @ [x])) init_world) k \<or>
           gave_up ((xs @ [x]) ! i) (run (take i (xs @ [x])) init_world) k)"
        by (simp add: nth_append)
      then show ?thesis by blast
    qed
  next
    assume "dispatched new k"
    then show ?thesis
      by (simp add: run_snoc new dispatched_append)
  next
    assume "seeded x ?w k"
    then have "length xs < length (xs @ [x]) \<and>
        seeded ((xs @ [x]) ! length xs) (run (take (length xs) (xs @ [x])) init_world) k"
      by simp
    then show ?thesis by blast
  next
    assume "gave_up x ?w k"
    then have "length xs < length (xs @ [x]) \<and>
        gave_up ((xs @ [x]) ! length xs) (run (take (length xs) (xs @ [x])) init_world) k"
      by simp
    then show ?thesis by blast
  qed
qed

theorem announced_without_dispatch:
  "announced_in (db (run [AddUserCommand good_env 1 ''Alice''] init_world))
     (1, ''alice'', ''RSA Starter 1'') \<and>
   sends (run [AddUserCommand good_env 1 ''Alice''] init_world) = [] \<and>
   \<not> dispatched (sends (run [AddUserCommand good_env 1 ''Alice''] init_world))
     (1, ''alice'', ''RSA Starter 1'')"
  by (simp add: add_user_command_def seed_solve_def record_solve_eq good_env_def profile_def
      init_world_def store_defs tick_def announced_in_def dispatched_def)

theorem announced_has_cause_witness:
  "announced_in
     (db (run [AddUserCommand growing_env 1 ''Alice'', CheckUserSolves growing_env 1 ''alice'',
               AnnounceNewSolves growing_env guild_one] init_world))
     (1, ''alice'', ''RSA Starter 1'') \<and>
   \<not> (\<exists>i<length [AddUserCommand growing_env 1 ''Alice'', CheckUserSolves growing_env 1 ''alice'',
                 AnnounceNewSolves growing_env guild_one].
       seeded ([AddUserCommand growing_env 1 ''Alice'', CheckUserSolves growing_env 1 ''alice'',
                AnnounceNewSolves growing_env guild_one] ! i)
         (run (take i [AddUserCommand growing_env 1 ''Alice'',
                       CheckUserSolves growing_env 1 ''alice'',
                       AnnounceNewSolves growing_env guild_one]) init_world)
         (1, ''alice'', ''RSA Starter 1'') \<or>
       gave_up ([AddUserCommand growing_env 1 ''Alice'', CheckUserSolves growing_env 1 ''alice'',
                 AnnounceNewSolves growing_env guild_one] ! i)
         (run (take i [AddUserCommand growing_env 1 ''Alice'',
                       CheckUserSolves growing_env 1 ''alice'',
                       AnnounceNewSolves growing_env guild_one]) init_world)
         (1, ''alice'', ''RSA Starter 1'')) \<and>
   dispatched
     (sends (run [AddUserCommand growing_env 1 ''Alice'', CheckUserSolves growing_env 1 ''alice'',
                  AnnounceNewSolves growing_env guild_one] init_world))
     (1, ''alice'', ''RSA Starter 1'')"
proof -
  let ?ops = "[AddUserCommand growing_env 1 ''Alice'', CheckUserSolves growing_env 1 ''alice'',
      AnnounceNewSolves growing_env guild_one]"
  let ?k = "(1::int, ''alice'', ''RSA Starter 1'')"
  have a: "announced_in (db (run ?ops init_world)) ?k"
    by (simp add: run_defs)
  have n: "\<not> (\<exists>i<length ?ops. seeded (?ops ! i) (run (take i ?ops) init_world) ?k \<or>
      gave_up (?ops ! i) (run (take i ?ops) init_world) ?k)"
    by (simp add: Ex_less_Suc run_defs)
  have d: "dispatched (sends (run ?ops init_world)) ?k"
    using announced_has_cause [OF a] n by blast
  show ?thesis
    by (rule conjI [OF a conjI [OF n d]])
qed

text \<open>
  A run in which the deliverer gives up: the image generation fails, the solve is marked
  and no send is made.
\<close>

lemma gave_up_example:
  "announced_in
     (db (run [AddUserCommand growing_env 1 ''Alice'', CheckUserSolves growing_env 1 ''alice'',
               AnnounceNewSolves unrendered_env guild_one] init_world))
     (1, ''alice'', ''RSA Starter 1'') \<and>
   sends (run [AddUserCommand growing_env 1 ''Alice'', CheckUserSolves growing_env 1 ''alice'',
               AnnounceNewSolves unrendered_env guild_one] init_world) = [] \<and>
   gave_up (AnnounceNewSolves unrendered_env guild_one)
     (run [AddUserCommand growing_env 1 ''Alice'', CheckUserSolves growing_env 1 ''alice'']
        init_world)
     (1, ''alice'', ''RSA Starter 1'')"
  by (simp add: run_defs unrendered_env_def)

subsection \<open>First blood\<close>

text \<open>
  C4. In the store reached from the empty one by any history of calls, the rows of a
  guild and challenge in \<open>guild_first_bloods\<close> are the one row inserted by the first
  call of the history that claims the pair, so there is at most one; and a call that
  claims the pair returns \<open>True\<close> exactly when no earlier call of the history claimed
  it, whoever the claimants are.
\<close>

theorem first_blood_claimed_once:
  "claims_of g c (db_run cs init_db) = first_claim g c cs \<and>
   length (claims_of g c (db_run cs init_db)) \<le> 1 \<and>
   (\<forall>i<length cs. \<forall>u. cs ! i = CheckAndSetFirstBlood g c u \<longrightarrow>
      (db_results cs init_db ! i \<longleftrightarrow>
         (\<forall>j<i. \<forall>u'. cs ! j \<noteq> CheckAndSetFirstBlood g c u')))"
proof (intro conjI allI impI)
  show "claims_of g c (db_run cs init_db) = first_claim g c cs"
    by (simp add: claims_of_run_eq)
  show "length (claims_of g c (db_run cs init_db)) \<le> 1"
    by (rule claims_of_run) simp
next
  fix i u
  assume "i < length cs" and "cs ! i = CheckAndSetFirstBlood g c u"
  then show "db_results cs init_db ! i \<longleftrightarrow>
      (\<forall>j<i. \<forall>u'. cs ! j \<noteq> CheckAndSetFirstBlood g c u')"
    using first_blood_results [of i cs g c u init_db]
    by (simp add: init_db_def)
qed

theorem first_blood_claimed_once_witness:
  "claim_history ! 0 = CheckAndSetFirstBlood 1 ''RSA Starter 1'' ''Alice'' \<and>
   claim_history ! 4 = CheckAndSetFirstBlood 1 ''RSA Starter 1'' ''alice'' \<and>
   db_results claim_history init_db ! 0 \<and>
   \<not> db_results claim_history init_db ! 4 \<and>
   claims_of 1 ''RSA Starter 1'' (db_run claim_history init_db) =
     [\<lparr>fb_guild_id = 1, fb_challenge_name = ''RSA Starter 1'', fb_first_solver = ''alice''\<rparr>]"
proof -
  note t = first_blood_claimed_once [of 1 "''RSA Starter 1''" claim_history]
  have c0: "claim_history ! 0 = CheckAndSetFirstBlood 1 ''RSA Starter 1'' ''Alice''"
    and c4: "claim_history ! 4 = CheckAndSetFirstBlood 1 ''RSA Starter 1'' ''alice''"
    and len: "length claim_history = 5"
    by (simp_all add: claim_history_def)
  have first: "first_claim 1 ''RSA Starter 1'' claim_history =
      [\<lparr>fb_guild_id = 1, fb_challenge_name = ''RSA Starter 1'', fb_first_solver = ''alice''\<rparr>]"
    by (simp add: claim_history_def first_claim_Cons lower_def lower_char_def)
  have r0: "db_results claim_history init_db ! 0"
    using t c0 len by force
  have "db_results claim_history init_db ! 4 \<longleftrightarrow>
      (\<forall>j<4. \<forall>u'. claim_history ! j \<noteq> CheckAndSetFirstBlood 1 ''RSA Starter 1'' u')"
    using t c4 len by force
  then have r4: "\<not> db_results claim_history init_db ! 4"
    using c0 by force
  show ?thesis
    using t c0 c4 r0 r4 first by simp
qed

subsection \<open>Recording a solve twice\<close>

text \<open>
  C5. When the store already holds a row for the guild, the lower-cased username and the
  challenge name, \<open>add_solved_challenge\<close> returns \<open>False\<close> instead of raising,
  whatever category, points, date and first-blood flag it is given, and the store it
  returns is the store it was given: every field of the existing row, \<open>first_blood\<close>
  included, is unchanged.
\<close>

theorem add_solved_challenge_again:
  assumes "r \<in> set (solved_challenges d)"
    and "sc_guild_id r = guild_id"
    and "sc_username r = lower username"
    and "sc_challenge_name r = challenge_name"
  shows "add_solved_challenge guild_id username challenge_name category points solved_date
           first_blood d = (False, d)"
proof -
  have "solve_key r = (guild_id, lower username, challenge_name)"
    using assms by (simp add: solve_key_def)
  then have "(guild_id, lower username, challenge_name) \<in> solve_key ` set (solved_challenges d)"
    using assms(1) by force
  then show ?thesis
    by (simp add: add_solved_challenge_def)
qed

theorem add_solved_challenge_again_witness:
  "add_solved_challenge 1 ''Alice'' ''RSA Starter 1'' ''Other'' 99 ''2030-12-31'' False two_pending
     = (False, two_pending) \<and>
   sc_first_blood (hd (solved_challenges two_pending))"
  using add_solved_challenge_again [of "hd (solved_challenges two_pending)" two_pending
      1 "''Alice''" "''RSA Starter 1''" "''Other''" 99 "''2030-12-31''" False]
  by (simp add: two_pending_eq lower_def lower_char_def)

subsection \<open>Seeding a newly tracked account\<close>

text \<open>
  C6. When \<open>/adduser\<close> fetches an account that is not tracked in the guild and whose
  snapshot has N achievements, the guild then holds exactly N recorded solves of the
  account, one for each name of the snapshot, all with \<open>announced\<close> true, and the
  command makes no call of \<open>channel.send\<close>, provided that the names of the snapshot
  are distinct and that the rows left from an earlier tracking of the account, if any, are
  of achievements of the snapshot. Both conditions are needed: a row of an achievement
  that is no longer in the snapshot stays, unannounced if it was, and an achievement
  listed twice is recorded once.
\<close>

theorem seeding_records_snapshot:
  assumes "db_inv (db w)"
    and "fetch_user e (clock w) username = Fetched user"
    and "(guild_id, lower (cu_username user)) \<notin> tracked_key ` set (tracked_users (db w))"
    and "distinct (map ch_name (cu_solved_challenges user))"
    and "get_solved_challenges (db w) guild_id (cu_username user)
           \<subseteq> ch_name ` set (cu_solved_challenges user)"
  shows "length (account_solves (db (add_user_command e guild_id username w)) guild_id
             (cu_username user)) = length (cu_solved_challenges user) \<and>
         list_all sc_announced
           (account_solves (db (add_user_command e guild_id username w)) guild_id
              (cu_username user)) \<and>
         sc_challenge_name ` set (account_solves (db (add_user_command e guild_id username w))
             guild_id (cu_username user)) = ch_name ` set (cu_solved_challenges user) \<and>
         sends (add_user_command e guild_id username w) = sends w"
proof -
  let ?n = "cu_username user"
  let ?d1 = "snd (add_user guild_id ?n None (db w))"
  have added: "fst (add_user guild_id ?n None (db w))"
    using assms(3) by (simp add: add_user_def)
  have d: "db (add_user_command e guild_id username w) =
      fold (seed_solve guild_id ?n) (cu_solved_challenges user) ?d1"
    using assms(2) added by (simp add: add_user_command_def split_beta)
  have s: "sends (add_user_command e guild_id username w) = sends w"
    using assms(2) by (simp add: add_user_command_def split_beta)
  have inv: "db_inv ?d1"
    using assms(1) by (rule add_user_inv)
  have old: "sc_challenge_name ` set (account_solves ?d1 guild_id ?n)
      \<subseteq> ch_name ` set (cu_solved_challenges user)"
    using assms(5) by (simp add: get_solved_challenges_def account_solves_def)
  note seeded_account [OF inv assms(4) old]
  then show ?thesis
    unfolding d using s by simp
qed

theorem seeding_records_snapshot_witness:
  "length (cu_solved_challenges (profile ''Alice'')) = 2 \<and>
   map (\<lambda>r. (sc_username r, sc_challenge_name r, sc_first_blood r, sc_announced r))
     (solved_challenges (db (add_user_command good_env 1 ''Alice'' init_world))) =
     [(''alice'', ''RSA Starter 1'', True, True), (''alice'', ''Keyed Permutations'', True, True)] \<and>
   length (account_solves (db (add_user_command good_env 1 ''Alice'' init_world)) 1
     (cu_username (profile ''Alice''))) = 2 \<and>
   list_all sc_announced (account_solves (db (add_user_command good_env 1 ''Alice'' init_world)) 1
     (cu_username (profile ''Alice''))) \<and>
   sends (add_user_command good_env 1 ''Alice'' init_world) = []"
proof -
  have inv: "db_inv (db init_world)"
    by (simp add: init_world_def db_inv_init)
  have f: "fetch_user good_env (clock init_world) ''Alice'' = Fetched (profile ''Alice'')"
    by (simp add: good_env_def)
  have new: "(1, lower (cu_username (profile ''Alice''))) \<notin>
      tracked_key ` set (tracked_users (db init_world))"
    by (simp add: init_world_def init_db_def)
  have dist: "distinct (map ch_name (cu_solved_challenges (profile ''Alice'')))"
    by (simp add: profile_def)
  have old: "get_solved_challenges (db init_world) 1 (cu_username (profile ''Alice''))
      \<subseteq> ch_name ` set (cu_solved_challenges (profile ''Alice''))"
    by (simp add: init_world_def init_db_def get_solved_challenges_def)
  note t = seeding_records_snapshot [OF inv f new dist old]
  have n: "length (cu_solved_challenges (profile ''Alice'')) = 2"
    by (simp add: profile_def)
  have rows: "map (\<lambda>r. (sc_username r, sc_challenge_name r, sc_first_blood r, sc_announced r))
     (solved_challenges (db (add_user_command good_env 1 ''Alice'' init_world))) =
     [(''alice'', ''RSA Starter 1'', True, True), (''alice'', ''Keyed Permutations'', True, True)]"
    by (simp add: add_user_command_def seed_solve_def record_solve_eq good_env_def profile_def
        init_world_def store_defs tick_def)
  have l: "length (account_solves (db (add_user_command good_env 1 ''Alice'' init_world)) 1
     (cu_username (profile ''Alice''))) = 2"
    using conjunct1 [OF t] n by (simp only:)
  have a: "list_all sc_announced (account_solves (db (add_user_command good_env 1 ''Alice'' init_world)) 1
     (cu_username (profile ''Alice'')))"
    by (rule conjunct1 [OF conjunct2 [OF t]])
  have "sends (add_user_command good_env 1 ''Alice'' init_world) = sends init_world"
    by (rule conjunct2 [OF conjunct2 [OF conjunct2 [OF t]]])
  then have s: "sends (add_user_command good_env 1 ''Alice'' init_world) = []"
    by (simp add: init_world_def)
  show ?thesis
    by (rule conjI [OF n conjI [OF rows conjI [OF l conjI [OF a s]]]])
qed

theorem seeding_counterexample:
  "(1, lower ''Alice'') \<notin> tracked_key ` set (tracked_users (db untracked_world)) \<and>
   (case fetch_user renaming_env (clock untracked_world) ''Alice'' of
      Fetched user \<Rightarrow> map ch_name (cu_solved_challenges user) = [''New Name'']
    | _ \<Rightarrow> False) \<and>
   map (\<lambda>r. (sc_challenge_name r, sc_announced r))
     (account_solves (db (add_user_command renaming_env 1 ''Alice'' untracked_world)) 1 ''Alice'') =
     [(''Old Name'', False), (''New Name'', True)] \<and>
   (case fetch_user twice_env (clock init_world) ''Alice'' of
      Fetched user \<Rightarrow>
        map ch_name (cu_solved_challenges user) = [''RSA Starter 1'', ''RSA Starter 1'']
    | _ \<Rightarrow> False) \<and>
   map (\<lambda>r. (sc_challenge_name r, sc_announced r))
     (account_solves (db (add_user_command twice_env 1 ''Alice'' init_world)) 1 ''Alice'') =
     [(''RSA Starter 1'', True)]"
  by (simp add: untracked_world_eq run_defs renaming_env_def twice_env_def account_solves_def)

subsection \<open>No channel to announce in\<close>

text \<open>
  C7. When no channel resolves for the guild (no configured channel that can be fetched
  or got, no text channel named cryptohack, no system channel), \<open>_announce_new_solves\<close>
  makes no call of \<open>channel.send\<close> and sets \<open>announced\<close> on every row of the guild,
  changing nothing else in the store; no solve of the guild is pending afterwards. The
  store is one that the program can reach: usernames are stored lower-cased.
\<close>

theorem no_channel_marks_all:
  assumes "db_inv (db w)" and "resolve_channel e g w = None"
  shows "sends (announce_new_solves e g w) = sends w \<and>
         db (announce_new_solves e g w) =
           (db w)\<lparr>solved_challenges :=
              map (\<lambda>r. if sc_guild_id r = g_id g then r\<lparr>sc_announced := True\<rparr> else r)
                (solved_challenges (db w))\<rparr> \<and>
         get_unannounced_solves (db (announce_new_solves e g w)) (g_id g) = []"
proof -
  let ?d' = "(db w)\<lparr>solved_challenges :=
      map (\<lambda>r. if sc_guild_id r = g_id g then r\<lparr>sc_announced := True\<rparr> else r)
        (solved_challenges (db w))\<rparr>"
  have low: "list_all (\<lambda>r. lower (sc_username r) = sc_username r) (solved_challenges (db w))"
    using assms(1) by (simp add: db_inv_def)
  have s: "sends (announce_new_solves e g w) = sends w"
    using assms(2) by (simp add: announce_new_solves_def Let_def)
  have d: "db (announce_new_solves e g w) = ?d'"
  proof (cases "get_unannounced_solves (db w) (g_id g) = []")
    case True
    then show ?thesis
      by (simp add: announce_new_solves_def none_pending_same)
  next
    case False
    then have "db (announce_new_solves e g w) =
        db (fold (\<lambda>solve. mark_announced (g_id g) (sc_username solve) (sc_challenge_name solve))
              (get_unannounced_solves (db w) (g_id g)) (tick w))"
      using assms(2) by (simp add: announce_new_solves_def Let_def)
    also have "\<dots> = ?d'"
      by (rule database.equality)
        (simp_all add: fold_mark_solved mark_all_pending [OF low])
    finally show ?thesis .
  qed
  show ?thesis
    using s d by (simp add: get_unannounced_solves_all_marked)
qed

theorem no_channel_marks_all_witness:
  "length (get_unannounced_solves (db pending_world) (g_id guild_silent)) = 2 \<and>
   resolve_channel good_env guild_silent pending_world = None \<and>
   sends (announce_new_solves good_env guild_silent pending_world) = [] \<and>
   map sc_announced (solved_challenges (db (announce_new_solves good_env guild_silent pending_world)))
     = [True, True] \<and>
   get_unannounced_solves (db (announce_new_solves good_env guild_silent pending_world))
     (g_id guild_silent) = []"
proof -
  have inv: "db_inv (db pending_world)"
    by (simp add: pending_world_def two_pending_eq db_inv_def store_defs)
  have res: "resolve_channel good_env guild_silent pending_world = None"
    by (simp add: resolve_channel_def pending_world_def two_pending_eq guild_silent_def
        general_def get_announcement_channel_def)
  have two: "length (get_unannounced_solves (db pending_world) (g_id guild_silent)) = 2"
    by (simp add: pending_world_def two_pending_eq guild_silent_def get_unannounced_solves_def)
  note t = no_channel_marks_all [OF inv res]
  have "sends (announce_new_solves good_env guild_silent pending_world) = sends pending_world"
    by (rule conjunct1 [OF t])
  also have "\<dots> = []"
    by (simp add: pending_world_def)
  finally have s: "sends (announce_new_solves good_env guild_silent pending_world) = []" .
  have d: "db (announce_new_solves good_env guild_silent pending_world) =
      (db pending_world)\<lparr>solved_challenges :=
         map (\<lambda>r. if sc_guild_id r = g_id guild_silent then r\<lparr>sc_announced := True\<rparr> else r)
           (solved_challenges (db pending_world))\<rparr>"
    by (rule conjunct1 [OF conjunct2 [OF t]])
  have u: "get_unannounced_solves (db (announce_new_solves good_env guild_silent pending_world))
      (g_id guild_silent) = []"
    by (rule conjunct2 [OF conjunct2 [OF t]])
  have m: "map sc_announced
      (solved_challenges (db (announce_new_solves good_env guild_silent pending_world))) =
      [True, True]"
    unfolding d by (simp add: pending_world_def two_pending_eq guild_silent_def)
  show ?thesis
    by (rule conjI [OF two conjI [OF res conjI [OF s conjI [OF m u]]]])
qed

subsection \<open>The announced flag never reverts\<close>

text \<open>
  C8. A row of \<open>solved_challenges\<close> whose \<open>announced\<close> is true is still in the table,
  with every field as it was and so with \<open>announced\<close> true, after any history of
  calls of the store and after any sequence of operations of the bot.
\<close>

theorem announced_never_reverts:
  "(r \<in> set (solved_challenges d) \<and> sc_announced r \<longrightarrow>
      r \<in> set (solved_challenges (db_run cs d))) \<and>
   (r \<in> set (solved_challenges (db w)) \<and> sc_announced r \<longrightarrow>
      r \<in> set (solved_challenges (db (run ops w))))"
proof -
  obtain cs' where "db (run ops w) = db_run cs' (db w)"
    using evolves_run [of w ops] by (auto simp: evolves_def db_reach_def)
  then show ?thesis
    by (simp add: keeps_run)
qed

theorem announced_never_reverts_witness:
  "hd (solved_challenges (mark_challenge_announced 1 ''alice'' ''RSA Starter 1'' two_pending))
     \<in> set (solved_challenges (db_run claim_history
         (mark_challenge_announced 1 ''alice'' ''RSA Starter 1'' two_pending))) \<and>
   hd (solved_challenges (mark_challenge_announced 1 ''alice'' ''RSA Starter 1'' two_pending))
     \<in> set (solved_challenges (db (run
         [AnnounceNewSolves bad_env guild_one, RemoveUserCommand 1 ''alice'',
          RefreshCommand good_env 1 general]
         (pending_world\<lparr>db :=
            mark_challenge_announced 1 ''alice'' ''RSA Starter 1'' two_pending\<rparr>))))"
proof -
  let ?d = "mark_challenge_announced 1 ''alice'' ''RSA Starter 1'' two_pending"
  have "hd (solved_challenges ?d) \<in> set (solved_challenges ?d)"
    and "sc_announced (hd (solved_challenges ?d))"
    by (simp_all add: two_pending_eq store_defs)
  then show ?thesis
    using announced_never_reverts [of "hd (solved_challenges ?d)" ?d claim_history
        "pending_world\<lparr>db := ?d\<rparr>"
        "[AnnounceNewSolves bad_env guild_one, RemoveUserCommand 1 ''alice'',
          RefreshCommand good_env 1 general]"]
    by simp
qed

subsection \<open>Marking in the refresh command\<close>

text \<open>
  C9. A solve that is announced after \<open>/refresh\<close> was either announced before it or has,
  among the calls of \<open>channel.send\<close> that the command made, one carrying its image that
  returned: when the image generation or the send raises for a new solve (and no other
  send of its image returns), its \<open>announced\<close> stays false. The loop body of the
  background deliverer, in contrast, marks its solve whatever the fetch, the image
  generation and the send do.
\<close>

theorem refresh_marks_only_delivered:
  "(announced_in (db (refresh e guild_id ch w)) k \<longrightarrow>
      announced_in (db w) k \<or> delivered (new_sends w (refresh e guild_id ch w)) k) \<and>
   db (announce_solve e' g ch' solve w') =
     mark_challenge_announced (g_id g) (sc_username solve) (sc_challenge_name solve) (db w')"
  using only_delivered_new_sends [OF only_delivered_refresh, of e guild_id ch w k]
  by (simp add: db_announce_solve)

theorem refresh_marks_only_delivered_witness:
  "map (\<lambda>r. (sc_username r, sc_challenge_name r, sc_announced r))
     (solved_challenges (db (refresh picky_env 1 general tracked_world))) =
     [(''alice'', ''RSA Starter 1'', False), (''alice'', ''Keyed Permutations'', False),
      (''bob'', ''RSA Starter 1'', True), (''bob'', ''Keyed Permutations'', True)] \<and>
   map sd_result (sends (refresh picky_env 1 general tracked_world)) =
     [Forbidden, Sent, Forbidden, Sent, Sent, Sent] \<and>
   \<not> announced_in (db tracked_world) (1, ''bob'', ''RSA Starter 1'') \<and>
   announced_in (db (refresh picky_env 1 general tracked_world)) (1, ''bob'', ''RSA Starter 1'') \<and>
   delivered (new_sends tracked_world (refresh picky_env 1 general tracked_world))
     (1, ''bob'', ''RSA Starter 1'')"
proof -
  have rows: "map (\<lambda>r. (sc_username r, sc_challenge_name r, sc_announced r))
     (solved_challenges (db (refresh picky_env 1 general tracked_world))) =
     [(''alice'', ''RSA Starter 1'', False), (''alice'', ''Keyed Permutations'', False),
      (''bob'', ''RSA Starter 1'', True), (''bob'', ''Keyed Permutations'', True)]"
    and log: "map sd_result (sends (refresh picky_env 1 general tracked_world)) =
     [Forbidden, Sent, Forbidden, Sent, Sent, Sent]"
    by (simp_all add: refresh_def get_tracked_users_def refresh_user_def refresh_challenge_def
        in_get_solved_challenges record_solve_eq refresh_send_def send_result
        mark_announced_def tick_def get_challenge_solvers_def Let_def
        tracked_world_def picky_env_def profile_def general_def store_defs)
  have before: "\<not> announced_in (db tracked_world) (1, ''bob'', ''RSA Starter 1'')"
    by (simp add: announced_in_def tracked_world_def store_defs)
  have after: "announced_in (db (refresh picky_env 1 general tracked_world)) (1, ''bob'', ''RSA Starter 1'')"
    unfolding announced_in_def
    by (simp add: refresh_def get_tracked_users_def refresh_user_def refresh_challenge_def
        in_get_solved_challenges record_solve_eq refresh_send_def send_result
        mark_announced_def tick_def get_challenge_solvers_def Let_def
        tracked_world_def picky_env_def profile_def general_def store_defs)
  have del: "delivered (new_sends tracked_world (refresh picky_env 1 general tracked_world))
     (1, ''bob'', ''RSA Starter 1'')"
    using conjunct1 [OF refresh_marks_only_delivered
        [of picky_env 1 general tracked_world "(1, ''bob'', ''RSA Starter 1'')"]]
      before after by blast
  show ?thesis
    by (rule conjI [OF rows conjI [OF log conjI [OF before conjI [OF after del]]]])
qed

subsection \<open>Untracking an account\<close>

text \<open>
  C10. \<open>remove_user\<close> deletes the row of the guild and the lower-cased username from
  \<open>tracked_users\<close> and nothing else: the recorded solves, the first-blood rows and the
  settings are the same afterwards. Since \<open>get_challenge_solvers\<close> joins the recorded
  solves with the tracked users, the untracked account is in no solvers listing of that
  guild afterwards, for any challenge.
\<close>

theorem remove_user_frame:
  "solved_challenges (snd (remove_user guild_id username d)) = solved_challenges d \<and>
   guild_first_bloods (snd (remove_user guild_id username d)) = guild_first_bloods d \<and>
   guild_settings (snd (remove_user guild_id username d)) = guild_settings d \<and>
   tracked_users (snd (remove_user guild_id username d)) =
     filter (\<lambda>r. tracked_key r \<noteq> (guild_id, lower username)) (tracked_users d) \<and>
   (\<forall>challenge_name.
      lower username \<notin> sv_username `
        set (get_challenge_solvers (snd (remove_user guild_id username d)) guild_id challenge_name))"
  by (auto simp: remove_user_def get_challenge_solvers_def tracked_key_def)

theorem remove_user_frame_witness:
  "map sv_username (get_challenge_solvers two_pending 1 ''RSA Starter 1'') = [''alice'', ''bob''] \<and>
   fst (remove_user 1 ''Alice'' two_pending) \<and>
   map sv_username (get_challenge_solvers (snd (remove_user 1 ''Alice'' two_pending)) 1
      ''RSA Starter 1'') = [''bob''] \<and>
   solved_challenges (snd (remove_user 1 ''Alice'' two_pending)) = solved_challenges two_pending \<and>
   guild_first_bloods (snd (remove_user 1 ''Alice'' two_pending)) = guild_first_bloods two_pending"
  using remove_user_frame [of 1 "''Alice''" two_pending]
  by (simp add: two_pending_eq get_challenge_solvers_def remove_user_def tracked_key_def
      lower_def lower_char_def)

end
